theory Spec2Isabelle
  imports Complex_Main "HOL-Library.Word"
begin

unbundle bit_operations_syntax

section \<open>Buffers and machine integers\<close>

text \<open>
  Raw bytes (\<open>uint8_t\<close>) are 8-bit words; text bytes (\<open>char\<close>) are Isabelle characters,
  which are 8 bits wide as well. A buffer is the list of its bytes. An access outside a
  buffer is undefined behaviour in C: every function that touches memory returns an
  option, and \<open>None\<close> stands for such an access.

  \<open>size_t\<close> is taken to be 64 bits wide. Values of that type are natural numbers,
  and the arithmetic that can leave the range is reduced modulo \<open>2 ^ 64\<close>.
\<close>

type_synonym u8 = "8 word"

definition SIZE_WIDTH :: nat where
  "SIZE_WIDTH = 64"

definition to_size_t :: "int \<Rightarrow> nat" where
  "to_size_t k = nat (k mod 2 ^ SIZE_WIDTH)"

definition read_at :: "'a list \<Rightarrow> nat \<Rightarrow> 'a option" where
  "read_at buf i = (if i < length buf then Some (buf ! i) else None)"

definition write_at :: "'a list \<Rightarrow> nat \<Rightarrow> 'a \<Rightarrow> 'a list option" where
  "write_at buf i v = (if i < length buf then Some (buf[i := v]) else None)"

text \<open>
  \<open>memset (buf + start, v, n)\<close>, and \<open>memmove (buf + dst, buf + src, n)\<close> within one
  buffer: the \<open>n\<close> bytes are read before any of them is written, as \<open>memmove\<close> does
  when the two areas overlap.
\<close>

definition memset :: "'a list \<Rightarrow> nat \<Rightarrow> 'a \<Rightarrow> nat \<Rightarrow> 'a list option" where
  "memset buf start v n =
    (if start + n \<le> length buf
     then Some (take start buf @ replicate n v @ drop (start + n) buf)
     else None)"

definition memmove :: "'a list \<Rightarrow> nat \<Rightarrow> nat \<Rightarrow> nat \<Rightarrow> 'a list option" where
  "memmove buf dst src n =
    (if src + n \<le> length buf \<and> dst + n \<le> length buf
     then Some (take dst buf @ take n (drop src buf) @ drop (dst + n) buf)
     else None)"

section \<open>Base-32 codec (crypto-utils.c)\<close>

definition base32_chars :: string where
  "base32_chars = ''ABCDEFGHIJKLMNOPQRSTUVWXYZ234567''"

definition base32_lookup :: "int list" where
  "base32_lookup =
    [0xFF,0xFF,0x1A,0x1B,0x1C,0x1D,0x1E,0x1F,
     0xFF,0xFF,0xFF,0xFF,0xFF,0xFF,0xFF,0xFF,
     0xFF,0x00,0x01,0x02,0x03,0x04,0x05,0x06,
     0x07,0x08,0x09,0x0A,0x0B,0x0C,0x0D,0x0E,
     0x0F,0x10,0x11,0x12,0x13,0x14,0x15,0x16,
     0x17,0x18,0x19,0xFF,0xFF,0xFF,0xFF,0xFF,
     0xFF,0x00,0x01,0x02,0x03,0x04,0x05,0x06,
     0x07,0x08,0x09,0x0A,0x0B,0x0C,0x0D,0x0E,
     0x0F,0x10,0x11,0x12,0x13,0x14,0x15,0x16,
     0x17,0x18,0x19,0xFF,0xFF,0xFF,0xFF,0xFF]"

definition base32_lookup_size :: nat where
  "base32_lookup_size = length base32_lookup"

subsection \<open>tr_base32_encode\<close>

text \<open>
  One pass through the body of the \<open>for\<close> loop of \<open>tr_base32_encode\<close>, up to the
  store: from the loop variables \<open>i\<close> and \<open>index\<close> it gives the digit and the new
  values of \<open>i\<close> and \<open>index\<close>. Both reads of the input are checked against the
  buffer.
\<close>

definition encode_digit :: "u8 list \<Rightarrow> nat \<Rightarrow> nat \<Rightarrow> nat \<Rightarrow> (nat \<times> nat \<times> nat) option" where
  "encode_digit input_bytes input_length i index =
    (case read_at input_bytes i of
       None \<Rightarrow> None
     | Some cb \<Rightarrow>
        (let curr_byte = unat cb in
         if index > 3 then
           (case (if i + 1 < input_length then read_at input_bytes (i + 1) else Some 0) of
              None \<Rightarrow> None
            | Some nb \<Rightarrow>
               (let next_byte = unat nb;
                    digit = curr_byte AND (drop_bit index 0xFF);
                    index' = (index + 5) mod 8;
                    digit = push_bit index' digit;
                    digit = digit OR (drop_bit (8 - index') next_byte)
                in Some (digit, i + 1, index')))
         else
           (let digit = (drop_bit (8 - (index + 5)) curr_byte) AND 0x1F;
                index' = (index + 5) mod 8
            in Some (digit, if index' = 0 then i + 1 else i, index'))))"

text \<open>
  The loop itself; \<open>pos\<close> is the distance of the moving pointer \<open>output_bytes\<close> from the
  start of the output buffer.
\<close>

function encode_loop ::
  "u8 list \<Rightarrow> nat \<Rightarrow> nat \<Rightarrow> nat \<Rightarrow> char list \<Rightarrow> nat \<Rightarrow> char list option" where
  "encode_loop input_bytes input_length i index out pos =
    (if i < input_length then
       (case encode_digit input_bytes input_length i index of
          None \<Rightarrow> None
        | Some (digit, i', index') \<Rightarrow>
           (case read_at base32_chars digit of
              None \<Rightarrow> None
            | Some c \<Rightarrow>
               (case write_at out pos c of
                  None \<Rightarrow> None
                | Some out' \<Rightarrow> encode_loop input_bytes input_length i' index' out' (pos + 1))))
     else Some out)"
  by pat_completeness auto
termination
proof (relation "measures [\<lambda>(inp, n, i, index, out, pos). n - i,
                           \<lambda>(inp, n, i, index, out, pos). if index \<le> 3 then 1 else 0]")
  show "wf (measures [\<lambda>(inp, n, i, index, out, pos). n - i,
                      \<lambda>(inp :: u8 list, n :: nat, i :: nat, index :: nat, out :: char list, pos :: nat).
                         if index \<le> 3 then 1 else 0])"
    by simp
next
  fix input_bytes :: "u8 list" and input_length i index :: nat and out :: "char list" and pos :: nat
    and x2 :: "nat \<times> nat \<times> nat" and digit :: nat and y :: "nat \<times> nat" and i' index' :: nat
    and c :: char and out' :: "char list"
  assume lt: "i < input_length"
    and step: "encode_digit input_bytes input_length i index = Some x2"
    and x2: "(digit, y) = x2" and y: "(i', index') = y"
  from step x2 y have "encode_digit input_bytes input_length i index = Some (digit, i', index')"
    by simp
  then have "(index > 3 \<and> i' = i + 1) \<or> (index \<le> 3 \<and> index' = (index + 5) mod 8 \<and> i' = (if index' = 0 then i + 1 else i))"
    unfolding encode_digit_def Let_def
    by (cases "read_at input_bytes i"; cases "index > 3";
        cases "(if i + 1 < input_length then read_at input_bytes (i + 1) else Some 0)") simp_all
  moreover have "index \<le> 3 \<Longrightarrow> (index + 5) mod 8 = 0 \<or> 3 < (index + 5) mod 8"
    by presburger
  ultimately have "(i' = i + 1) \<or> (i' = i \<and> index \<le> 3 \<and> 3 < index')"
    by (auto split: if_splits)
  then show "((input_bytes, input_length, i', index', out', pos + 1),
              (input_bytes, input_length, i, index, out, pos))
             \<in> measures [\<lambda>(inp, n, i, index, out, pos). n - i,
                           \<lambda>(inp, n, i, index, out, pos). if index \<le> 3 then 1 else 0]"
    using lt by auto
qed

text \<open>
  The two pointers \<open>output\<close> and \<open>output_length\<close> may be \<open>NULL\<close>: a pointer is an
  option, \<open>None\<close> for \<open>NULL\<close>, otherwise the contents of what it points to. The
  function returns both, as they are after the call.
\<close>

definition tr_base32_encode ::
  "u8 list \<Rightarrow> nat \<Rightarrow> char list option \<Rightarrow> nat option \<Rightarrow> (char list option \<times> nat option) option" where
  "tr_base32_encode input input_length output output_length =
    (let my_output_length = ((input_length * 8 + 4) mod 2 ^ SIZE_WIDTH) div 5;
         output_length' = (case output_length of None \<Rightarrow> None | Some _ \<Rightarrow> Some my_output_length)
     in case output of
          None \<Rightarrow> Some (None, output_length')
        | Some out \<Rightarrow>
           (case encode_loop input input_length 0 0 out 0 of
              None \<Rightarrow> None
            | Some out' \<Rightarrow> Some (Some out', output_length')))"

subsection \<open>tr_base32_decode\<close>

text \<open>The \<open>while\<close> loop that drops the trailing \<open>=\<close> characters from \<open>input_length\<close>.\<close>

fun strip_padding :: "char list \<Rightarrow> nat \<Rightarrow> nat option" where
  "strip_padding input_bytes 0 = Some 0"
| "strip_padding input_bytes (Suc n) =
    (case read_at input_bytes n of
       None \<Rightarrow> None
     | Some c \<Rightarrow> if c = CHR ''='' then strip_padding input_bytes n else Some (Suc n))"

text \<open>
  \<open>output_bytes[offset] |= v\<close> with \<open>v\<close> of type \<open>int\<close>: the byte is promoted to
  \<open>int\<close>, and the result is cut to eight bits when it is stored.
\<close>

definition or_at :: "u8 list \<Rightarrow> nat \<Rightarrow> int \<Rightarrow> u8 list option" where
  "or_at output_bytes offset v =
    (case read_at output_bytes offset of
       None \<Rightarrow> None
     | Some b \<Rightarrow> write_at output_bytes offset (word_of_int (uint b OR v)))"

text \<open>
  The body of the \<open>for\<close> loop of \<open>tr_base32_decode\<close> for the character \<open>c\<close> read
  from \<open>input_bytes[i]\<close>. It ends in \<open>continue\<close> (or falls through to the next
  pass) with new values of \<open>index\<close>, \<open>offset\<close> and the output buffer, or in
  \<open>break\<close>.
\<close>

datatype 'a loop_exit = Continue 'a | Break "u8 list"

definition decode_step ::
  "nat \<Rightarrow> char \<Rightarrow> nat \<times> nat \<times> u8 list \<Rightarrow> (nat \<times> nat \<times> u8 list) loop_exit option" where
  "decode_step my_output_length c st =
    (case st of (index, offset, out) \<Rightarrow>
      (let lookup = to_size_t (of_char c - 48) in
       if lookup \<ge> base32_lookup_size then Some (Continue st)
       else
         (case read_at base32_lookup lookup of
            None \<Rightarrow> None
          | Some digit \<Rightarrow>
             if digit = 0xFF then Some (Continue st)
             else if index \<le> 3 then
               (let index = (index + 5) mod 8 in
                if index = 0 then
                  (case or_at out offset digit of
                     None \<Rightarrow> None
                   | Some out \<Rightarrow>
                      (let offset = offset + 1 in
                       if offset \<ge> my_output_length then Some (Break out)
                       else Some (Continue (index, offset, out))))
                else
                  (case or_at out offset (push_bit (8 - index) digit) of
                     None \<Rightarrow> None
                   | Some out \<Rightarrow> Some (Continue (index, offset, out))))
             else
               (let index = (index + 5) mod 8 in
                case or_at out offset (drop_bit index digit) of
                  None \<Rightarrow> None
                | Some out \<Rightarrow>
                   (let offset = offset + 1 in
                    if offset \<ge> my_output_length then Some (Break out)
                    else
                      (case or_at out offset (push_bit (8 - index) digit) of
                         None \<Rightarrow> None
                       | Some out \<Rightarrow> Some (Continue (index, offset, out))))))))"

function decode_loop ::
  "char list \<Rightarrow> nat \<Rightarrow> nat \<Rightarrow> nat \<Rightarrow> nat \<times> nat \<times> u8 list \<Rightarrow> u8 list option" where
  "decode_loop input_bytes input_length my_output_length i st =
    (if i < input_length then
       (case read_at input_bytes i of
          None \<Rightarrow> None
        | Some c \<Rightarrow>
           (case decode_step my_output_length c st of
              None \<Rightarrow> None
            | Some (Break out) \<Rightarrow> Some out
            | Some (Continue st') \<Rightarrow>
                decode_loop input_bytes input_length my_output_length (i + 1) st'))
     else Some (snd (snd st)))"
  by pat_completeness auto
termination
  by (relation "measure (\<lambda>(inp, n, l, i, st). n - i)") auto

definition tr_base32_decode ::
  "char list \<Rightarrow> nat \<Rightarrow> u8 list option \<Rightarrow> nat option \<Rightarrow> (u8 list option \<times> nat option) option" where
  "tr_base32_decode input input_length output output_length =
    (case strip_padding input input_length of
       None \<Rightarrow> None
     | Some input_length \<Rightarrow>
        (let my_output_length = ((input_length * 5) mod 2 ^ SIZE_WIDTH) div 8;
             output_length' = (case output_length of None \<Rightarrow> None | Some _ \<Rightarrow> Some my_output_length)
         in case output of
              None \<Rightarrow> Some (None, output_length')
            | Some out \<Rightarrow>
               (case memset out 0 0 my_output_length of
                  None \<Rightarrow> None
                | Some out \<Rightarrow>
                   (case decode_loop input input_length my_output_length 0 (0, 0, out) of
                      None \<Rightarrow> None
                    | Some out \<Rightarrow> Some (Some out, output_length')))))"

subsection \<open>The encoding as the specification describes it\<close>

text \<open>
  The specification has the encoder consume "the input as a contiguous bitstream, 5 bits
  at a time, most-significant-bit-first, mapping each 5-bit group (0-31) through a fixed
  32-character alphabet", the final group "zero-extended on its low-order bits".
  \<open>spec_base32_encode\<close> is written after these words, on lists of bits, and not after
  the code; \<open>spec_digits\<close> are the values of its groups.
\<close>

definition bits_of_byte :: "u8 \<Rightarrow> bool list" where
  "bits_of_byte b = map (bit b) [7, 6, 5, 4, 3, 2, 1, 0]"

definition bitstream :: "u8 list \<Rightarrow> bool list" where
  "bitstream bs = concat (map bits_of_byte bs)"

definition msb_value :: "bool list \<Rightarrow> nat" where
  "msb_value g = foldl (\<lambda>a b. 2 * a + of_bool b) 0 g"

function groups5 :: "bool list \<Rightarrow> bool list list" where
  "groups5 bs = (if bs = [] then [] else take 5 (bs @ replicate 4 False) # groups5 (drop 5 bs))"
  by pat_completeness auto
termination
  by (relation "measure length") auto

declare groups5.simps [simp del]

definition spec_base32_encode :: "u8 list \<Rightarrow> string" where
  "spec_base32_encode bs = map (\<lambda>g. base32_chars ! msb_value g) (groups5 (bitstream bs))"

definition spec_digits :: "u8 list \<Rightarrow> nat list" where
  "spec_digits bs = map msb_value (groups5 (bitstream bs))"

text \<open>
  \<open>digit_of\<close> is the test that opens the body of the decoder's loop: the digit of a
  character, or \<open>None\<close> for a character that the loop skips.
\<close>

definition digit_of :: "char \<Rightarrow> int option" where
  "digit_of c =
    (let lookup = to_size_t (of_char c - 48) in
     if lookup \<ge> base32_lookup_size then None
     else if base32_lookup ! lookup = 0xFF then None
     else Some (base32_lookup ! lookup))"

text \<open>
  What the specification calls the input "with any trailing \<open>=\<close> padding characters
  removed", and the relation of a string \<open>s\<close> to a string \<open>s'\<close> made of it by
  inserting characters that the lookup table does not recognise.
\<close>

definition strip_trailing :: "string \<Rightarrow> string" where
  "strip_trailing cs = rev (dropWhile (\<lambda>c. c = CHR ''='') (rev cs))"

fun inserted_invalid :: "string \<Rightarrow> string \<Rightarrow> bool" where
  "inserted_invalid [] s' = list_all (\<lambda>c. digit_of c = None) s'"
| "inserted_invalid (c # s) [] = False"
| "inserted_invalid (c # s) (c' # s') =
    ((c = c' \<and> inserted_invalid s s') \<or> (digit_of c' = None \<and> inserted_invalid (c # s) s'))"

subsection \<open>Notions for the proofs about the codec\<close>

text \<open>
  \<open>sbit inp p\<close> is bit \<open>p\<close> of the bytes \<open>inp\<close> read as a stream, and \<open>False\<close>
  behind its end; \<open>dbit ds q\<close> is bit \<open>q\<close> of the stream of the 5-bit digits \<open>ds\<close>.

  \<open>put_digit\<close> is the body of the decoder's loop after the test \<open>digit_of\<close>, with
  the arithmetic on \<open>index\<close> carried out; \<open>decode_list\<close> is the loop
  as a recursion over the characters, and \<open>decode_digits\<close> the same over the digits of
  the characters that are not skipped. The lemmas \<open>decode_step_digit\<close>,
  \<open>decode_loop_list\<close> and \<open>decode_list_digits\<close> derive them from \<open>decode_step\<close> and
  \<open>decode_loop\<close>. \<open>dec_inv\<close> is the invariant of the loop after \<open>k\<close> digits, and
  \<open>dec_final\<close> what holds of the output when the loop has ended.
\<close>

definition sbit :: "u8 list \<Rightarrow> nat \<Rightarrow> bool" where
  "sbit inp p = (p < 8 * length inp \<and> bit (inp ! (p div 8)) (7 - p mod 8))"

definition put_digit ::
  "nat \<Rightarrow> int \<Rightarrow> nat \<times> nat \<times> u8 list \<Rightarrow> (nat \<times> nat \<times> u8 list) loop_exit option" where
  "put_digit L d st =
    (case st of (index, offset, out) \<Rightarrow>
       if index \<le> 3 then
         (if index = 3 then
            (if offset < length out then
               (if offset + 1 \<ge> L then Some (Break (out[offset := out ! offset OR word_of_int d]))
                else Some (Continue (0, offset + 1, out[offset := out ! offset OR word_of_int d])))
             else None)
          else
            (if offset < length out
             then Some (Continue (index + 5, offset, out[offset := out ! offset OR word_of_int (push_bit (3 - index) d)]))
             else None))
       else
         (if offset < length out then
            (if offset + 1 \<ge> L then Some (Break (out[offset := out ! offset OR word_of_int (drop_bit (index - 3) d)]))
             else if offset + 1 < length out then
               Some (Continue (index - 3, offset + 1,
                  (out[offset := out ! offset OR word_of_int (drop_bit (index - 3) d)])
                     [offset + 1 := out ! (offset + 1) OR word_of_int (push_bit (11 - index) d)]))
             else None)
          else None))"

fun decode_list :: "nat \<Rightarrow> char list \<Rightarrow> nat \<times> nat \<times> u8 list \<Rightarrow> u8 list option" where
  "decode_list L [] st = Some (snd (snd st))"
| "decode_list L (c # cs) st =
    (case decode_step L c st of
       None \<Rightarrow> None
     | Some (Break out) \<Rightarrow> Some out
     | Some (Continue st') \<Rightarrow> decode_list L cs st')"

fun decode_digits :: "nat \<Rightarrow> int list \<Rightarrow> nat \<times> nat \<times> u8 list \<Rightarrow> u8 list option" where
  "decode_digits L [] st = Some (snd (snd st))"
| "decode_digits L (d # ds) st =
    (case put_digit L d st of
       None \<Rightarrow> None
     | Some (Break out) \<Rightarrow> Some out
     | Some (Continue st') \<Rightarrow> decode_digits L ds st')"

definition valid_digits :: "char list \<Rightarrow> int list" where
  "valid_digits cs = List.map_filter digit_of cs"

definition dbit :: "int list \<Rightarrow> nat \<Rightarrow> bool" where
  "dbit ds q = (q div 5 < length ds \<and> bit (ds ! (q div 5)) (4 - q mod 5))"

definition dec_inv :: "nat \<Rightarrow> int list \<Rightarrow> nat \<Rightarrow> nat \<times> nat \<times> u8 list \<Rightarrow> bool" where
  "dec_inv L ds k st =
    (case st of (index, offset, out) \<Rightarrow>
       index < 8 \<and> 8 * offset + index = 5 * k \<and> offset < L \<and> L \<le> length out \<and>
       (\<forall>y<offset. \<forall>m<8. bit (out ! y) m = dbit ds (8 * y + 7 - m)) \<and>
       (\<forall>m<8. bit (out ! offset) m = (7 - m < index \<and> dbit ds (8 * offset + 7 - m))) \<and>
       (\<forall>y. offset < y \<and> y < L \<longrightarrow> out ! y = 0))"

definition dec_final :: "nat \<Rightarrow> int list \<Rightarrow> u8 list \<Rightarrow> bool" where
  "dec_final L ds out = (L \<le> length out \<and> (\<forall>y<L. \<forall>m<8. bit (out ! y) m = dbit ds (8 * y + 7 - m)))"

section \<open>Diffie-Hellman key alignment (crypto-utils.c)\<close>

text \<open>
  \<open>tr_dh_align_key\<close> works in place on the caller's buffer. The result is the buffer
  after the call; \<open>None\<close> stands for the failed \<open>assert\<close> or for an access outside the
  buffer.
\<close>

definition tr_dh_align_key :: "u8 list \<Rightarrow> nat \<Rightarrow> nat \<Rightarrow> u8 list option" where
  "tr_dh_align_key key_buffer key_size buffer_size =
    (if \<not> key_size \<le> buffer_size then None
     else if key_size < buffer_size then
       (let offset = buffer_size - key_size in
        case memmove key_buffer offset 0 key_size of
          None \<Rightarrow> None
        | Some key_buffer \<Rightarrow> memset key_buffer 0 0 offset)
     else Some key_buffer)"

text \<open>The unsigned number that a buffer holds in big-endian order.\<close>

definition be_value :: "u8 list \<Rightarrow> nat" where
  "be_value bs = foldl (\<lambda>a b. 256 * a + unat b) 0 bs"

section \<open>Bounded random integers (crypto-utils.c)\<close>

text \<open>
  \<open>int\<close> is 32 bits wide. \<open>abs\<close> is defined for every argument but \<open>INT_MIN\<close>: there
  the behaviour is undefined (the source says so in its comment), and \<open>c_abs\<close> has no
  value. The operator \<open>%\<close> truncates towards zero.
\<close>

definition INT_MIN :: int where
  "INT_MIN = - (2 ^ 31)"

definition c_abs :: "int \<Rightarrow> int option" where
  "c_abs x = (if x = INT_MIN then None else Some \<bar>x\<bar>)"

definition c_rem :: "int \<Rightarrow> int \<Rightarrow> int" where
  "c_rem a b = sgn a * (\<bar>a\<bar> mod \<bar>b\<bar>)"

text \<open>
  One call of \<open>tr_rand_buffer (&noise, sizeof (noise))\<close>: the provider fails, or it
  fills \<open>noise\<close>.
\<close>

datatype rand_buffer_result = Rand_Failed | Rand_Filled "32 word"

text \<open>
  The weak generator. Its state is the \<open>static bool init\<close> and the state of the C
  library's generator; \<open>srand\<close> and \<open>rand\<close> are parameters, \<open>rand\<close> returning a value
  between 0 and \<open>RAND_MAX\<close> and the next state. The 64-bit result of \<open>tr_time_msec\<close> is
  converted to the \<open>unsigned int\<close> that \<open>srand\<close> takes. \<open>None\<close> stands for the failed
  \<open>assert\<close>.
\<close>

record 's weak_rng =
  init :: bool
  libc_state :: 's

definition tr_rand_int_weak ::
  "(nat \<Rightarrow> 's) \<Rightarrow> ('s \<Rightarrow> nat \<times> 's) \<Rightarrow> nat \<Rightarrow> int \<Rightarrow> 's weak_rng \<Rightarrow> (int \<times> 's weak_rng) option" where
  "tr_rand_int_weak srand rand tr_time_msec upper_bound w =
    (if \<not> upper_bound > 0 then None
     else
       (let w = (if \<not> init w then \<lparr>init = True, libc_state = srand (tr_time_msec mod 2 ^ 32)\<rparr> else w);
            (r, s) = rand (libc_state w)
        in Some (c_rem (int r) upper_bound, w\<lparr>libc_state := s\<rparr>)))"

text \<open>
  The \<open>while\<close> loop of \<open>tr_rand_int\<close> runs once for each answer of the provider. The
  model is given the answers in order. \<open>Undefined_Behaviour\<close> is the call of
  \<open>abs (INT_MIN)\<close>: from there on the C standard promises nothing about the program,
  neither that the test \<open>noise >= 0\<close> is carried out nor what is returned. \<open>Pending\<close> is
  the loop still running when the answers given are used up.
\<close>

datatype 'a loop_result = Returned 'a | Assert_Failed | Undefined_Behaviour | Pending

fun rand_int_loop ::
  "(int \<Rightarrow> 'w \<Rightarrow> (int \<times> 'w) option) \<Rightarrow> int \<Rightarrow> rand_buffer_result list \<Rightarrow> 'w \<Rightarrow> (int \<times> 'w) loop_result" where
  "rand_int_loop weak upper_bound [] w = Pending"
| "rand_int_loop weak upper_bound (Rand_Failed # rs) w =
    (case weak upper_bound w of None \<Rightarrow> Assert_Failed | Some r \<Rightarrow> Returned r)"
| "rand_int_loop weak upper_bound (Rand_Filled x # rs) w =
    (case c_abs (sint x) of
       None \<Rightarrow> Undefined_Behaviour
     | Some a \<Rightarrow>
        (let noise = c_rem a upper_bound in
         if noise \<ge> 0 then Returned (noise, w)
         else rand_int_loop weak upper_bound rs w))"

definition tr_rand_int ::
  "(nat \<Rightarrow> 's) \<Rightarrow> ('s \<Rightarrow> nat \<times> 's) \<Rightarrow> nat \<Rightarrow> int \<Rightarrow> rand_buffer_result list \<Rightarrow> 's weak_rng
     \<Rightarrow> (int \<times> 's weak_rng) loop_result" where
  "tr_rand_int srand rand tr_time_msec upper_bound answers w =
    (if \<not> upper_bound > 0 then Assert_Failed
     else rand_int_loop (tr_rand_int_weak srand rand tr_time_msec) upper_bound answers w)"

section \<open>Salted SHA-1 tokens (crypto-utils.c)\<close>

text \<open>
  A C string is a buffer of characters that holds a \<open>NUL\<close>; its contents are the
  characters before the first \<open>NUL\<close>. \<open>strlen\<close> and \<open>strcmp\<close> read up to that
  \<open>NUL\<close>: in a buffer without one they read past its end.
\<close>

definition NUL :: char where
  "NUL = CHR 0x00"

definition strlen :: "string \<Rightarrow> nat option" where
  "strlen s = (if NUL \<in> set s then Some (length (takeWhile (\<lambda>c. c \<noteq> NUL) s)) else None)"

text \<open>\<open>strcmp (a, b) == 0\<close>.\<close>

definition strcmp_eq0 :: "string \<Rightarrow> string \<Rightarrow> bool option" where
  "strcmp_eq0 a b =
    (if NUL \<in> set a \<and> NUL \<in> set b
     then Some (takeWhile (\<lambda>c. c \<noteq> NUL) a = takeWhile (\<lambda>c. c \<noteq> NUL) b)
     else None)"

text \<open>
  Modelled from the spec: \<open>tr_strdup\<close> is defined in utils.c, which is not among the
  sources. The spec has \<open>hash\<close> produce "a single printable token" of the characters
  that \<open>tr_ssha1\<close> put into \<open>buf\<close>: \<open>tr_strdup\<close> returns a new buffer with the
  contents of the string and its \<open>NUL\<close>, as \<open>strdup\<close> does.
\<close>

definition tr_strdup :: "string \<Rightarrow> string option" where
  "tr_strdup s = (case strlen s of None \<Rightarrow> None | Some n \<Rightarrow> Some (take n s @ [NUL]))"

text \<open>Reading and writing \<open>n\<close> bytes from an offset of a buffer, as \<open>memcpy\<close> does.\<close>

definition read_range :: "'a list \<Rightarrow> nat \<Rightarrow> nat \<Rightarrow> 'a list option" where
  "read_range buf start n = (if start + n \<le> length buf then Some (take n (drop start buf)) else None)"

definition write_range :: "'a list \<Rightarrow> nat \<Rightarrow> 'a list \<Rightarrow> 'a list option" where
  "write_range buf start xs =
    (if start + length xs \<le> length buf
     then Some (take start buf @ xs @ drop (start + length xs) buf)
     else None)"

text \<open>The bytes of a character buffer, and the conversion of a \<open>size_t\<close> to \<open>int\<close>.\<close>

definition bytes_of :: "string \<Rightarrow> u8 list" where
  "bytes_of s = map of_char s"

definition to_int :: "nat \<Rightarrow> int" where
  "to_int n = sint (word_of_nat n :: 32 word)"

definition SHA_DIGEST_LENGTH :: nat where
  "SHA_DIGEST_LENGTH = 20"

subsection \<open>tr_sha1\<close>

text \<open>
  The digest provider is a parameter: \<open>sha1 msg\<close> is the digest of the message \<open>msg\<close>,
  or \<open>None\<close> when the provider reports an error from \<open>tr_sha1_init\<close>,
  \<open>tr_sha1_update\<close> or \<open>tr_sha1_final\<close>. The digest session is the message fed to it so
  far.

  \<open>tr_sha1_update\<close> (crypto-utils-openssl.c) takes the length as a \<open>size_t\<close>, reads
  nothing when it is 0, and lets the provider read that many bytes otherwise.
\<close>

definition tr_sha1_update :: "u8 list \<Rightarrow> u8 list \<Rightarrow> int \<Rightarrow> u8 list option" where
  "tr_sha1_update handle data data_length =
    (let n = to_size_t data_length in
     if n = 0 then Some handle
     else if n \<le> length data then Some (handle @ take n data)
     else None)"

text \<open>
  The \<open>while\<close> loop of \<open>tr_sha1\<close> over the variable arguments, pairs of a pointer and
  an \<open>int\<close> length, with its \<open>assert (data_length >= 0)\<close>. (A \<open>NULL\<close> pointer ends the
  list. The callers in this file pass one only for a span of length 0, where stopping and
  hashing no byte are the same.)
\<close>

fun tr_sha1_rest :: "u8 list \<Rightarrow> (u8 list \<times> int) list \<Rightarrow> u8 list option" where
  "tr_sha1_rest handle [] = Some handle"
| "tr_sha1_rest handle ((data, data_length) # vl) =
    (if \<not> data_length \<ge> 0 then None
     else
       (case tr_sha1_update handle data data_length of
          None \<Rightarrow> None
        | Some handle \<Rightarrow> tr_sha1_rest handle vl))"

text \<open>
  \<open>tr_sha1\<close> returns its boolean and the contents of \<open>hash\<close> after the call: the
  digest, or what \<open>hash\<close> held before when the provider failed. \<open>tr_sha1_final\<close> asserts
  that the digest has \<open>SHA_DIGEST_LENGTH\<close> bytes.
\<close>

definition tr_sha1 ::
  "(u8 list \<Rightarrow> u8 list option) \<Rightarrow> u8 list \<Rightarrow> u8 list \<Rightarrow> int \<Rightarrow> (u8 list \<times> int) list \<Rightarrow> (bool \<times> u8 list) option" where
  "tr_sha1 sha1 hash data1 data1_length vl =
    (case tr_sha1_update [] data1 data1_length of
       None \<Rightarrow> None
     | Some handle \<Rightarrow>
        (case tr_sha1_rest handle vl of
           None \<Rightarrow> None
         | Some handle \<Rightarrow>
            (case sha1 handle of
               None \<Rightarrow> Some (False, hash)
             | Some digest \<Rightarrow>
                 if length digest = SHA_DIGEST_LENGTH then Some (True, digest) else None)))"

subsection \<open>tr_sha1_to_hex\<close>

text \<open>
  Modelled from the spec: \<open>tr_sha1_to_hex\<close> is defined in utils.c, which is not among
  the sources. The spec says that the digest is rendered "as lowercase hex", as
  \<open>2 * digest_len\<close> characters. The function reads \<open>SHA_DIGEST_LENGTH\<close> bytes and gives
  the two hexadecimal digits of each, the high one first, followed by a \<open>NUL\<close>.
\<close>

definition hex_chars :: string where
  "hex_chars = ''0123456789abcdef''"

definition hex_of_byte :: "u8 \<Rightarrow> string" where
  "hex_of_byte b = [hex_chars ! (unat b div 16), hex_chars ! (unat b mod 16)]"

definition tr_sha1_to_hex :: "u8 list \<Rightarrow> string option" where
  "tr_sha1_to_hex sha1 =
    (case read_range sha1 0 SHA_DIGEST_LENGTH of
       None \<Rightarrow> None
     | Some bs \<Rightarrow> Some (concat (map hex_of_byte bs) @ [NUL]))"

subsection \<open>tr_ssha1\<close>

text \<open>
  The local arrays \<open>salt\<close>, \<open>sha\<close> and \<open>buf\<close> hold arbitrary bytes before they are
  written: the parameters \<open>salt0\<close>, \<open>sha0\<close> and \<open>buf0\<close> give the byte at each index.
  The result of \<open>tr_rand_buffer (salt, saltval_len)\<close> is not looked at, so \<open>salt0\<close> is
  also what the random source wrote when it succeeded.
\<close>

definition salter :: string where
  "salter = ''0123456789abcdefghijklmnopqrstuvwxyzABCDEFGHIJKLMNOPQRSTUVWXYZ./''"

definition tr_ssha1 ::
  "(u8 list \<Rightarrow> u8 list option) \<Rightarrow> (nat \<Rightarrow> u8) \<Rightarrow> (nat \<Rightarrow> u8) \<Rightarrow> (nat \<Rightarrow> char) \<Rightarrow> string \<Rightarrow> string option" where
  "tr_ssha1 sha1 salt0 sha0 buf0 plain_text =
    (let saltval_len = 8;
         salter_len = 64;
         salt = map (\<lambda>i. salter ! (unat (salt0 i) mod salter_len)) [0..<saltval_len];
         sha = map sha0 [0..<SHA_DIGEST_LENGTH];
         buf = map buf0 [0..<2 * SHA_DIGEST_LENGTH + saltval_len + 2]
     in case strlen plain_text of
          None \<Rightarrow> None
        | Some n \<Rightarrow>
     (case tr_sha1 sha1 sha (bytes_of plain_text) (to_int n) [(bytes_of salt, to_int saltval_len)] of
          None \<Rightarrow> None
        | Some (_, sha) \<Rightarrow>
     (case tr_sha1_to_hex sha of
          None \<Rightarrow> None
        | Some hex \<Rightarrow>
     (case write_range buf 1 hex of
          None \<Rightarrow> None
        | Some buf \<Rightarrow>
     (case write_range buf (1 + 2 * SHA_DIGEST_LENGTH) salt of
          None \<Rightarrow> None
        | Some buf \<Rightarrow>
     (case write_at buf (1 + 2 * SHA_DIGEST_LENGTH + saltval_len) NUL of
          None \<Rightarrow> None
        | Some buf \<Rightarrow>
     (case write_at buf 0 CHR ''{'' of
          None \<Rightarrow> None
        | Some buf \<Rightarrow> tr_strdup buf)))))))"

subsection \<open>tr_ssha1_matches\<close>

text \<open>
  \<open>buf0\<close> gives the bytes of the local array \<open>buf\<close>, and \<open>heap0\<close> the bytes of the
  block that \<open>tr_malloc\<close> returns for \<open>my_ssha1\<close>, before they are written. (That
  \<open>tr_malloc\<close> may return \<open>NULL\<close> when memory is short is outside the model.)
  \<open>saltlen\<close> is computed in \<open>size_t\<close>, where the subtraction wraps around.
\<close>

definition tr_ssha1_matches ::
  "(u8 list \<Rightarrow> u8 list option) \<Rightarrow> (nat \<Rightarrow> u8) \<Rightarrow> (nat \<Rightarrow> char) \<Rightarrow> string \<Rightarrow> string \<Rightarrow> bool option" where
  "tr_ssha1_matches sha1 buf0 heap0 ssha1 plain_text =
    (case strlen ssha1 of
       None \<Rightarrow> None
     | Some sourcelen \<Rightarrow>
        if sourcelen < 2 * SHA_DIGEST_LENGTH - 1 then Some False
        else
          (let saltlen = to_size_t (int sourcelen - 2 * int SHA_DIGEST_LENGTH - 1) in
           case read_range ssha1 (2 * SHA_DIGEST_LENGTH + 1) saltlen of
             None \<Rightarrow> None
           | Some salt \<Rightarrow>
          (let my_ssha1 = map heap0 [0..<(2 * SHA_DIGEST_LENGTH + saltlen + 2) mod 2 ^ SIZE_WIDTH];
               buf = map buf0 [0..<SHA_DIGEST_LENGTH]
           in case strlen plain_text of
                None \<Rightarrow> None
              | Some n \<Rightarrow>
          (case tr_sha1 sha1 buf (bytes_of plain_text) (to_int n) [(bytes_of salt, to_int saltlen)] of
                None \<Rightarrow> None
              | Some (_, buf) \<Rightarrow>
          (case tr_sha1_to_hex buf of
                None \<Rightarrow> None
              | Some hex \<Rightarrow>
          (case write_range my_ssha1 1 hex of
                None \<Rightarrow> None
              | Some my_ssha1 \<Rightarrow>
          (case write_range my_ssha1 (1 + 2 * SHA_DIGEST_LENGTH) salt of
                None \<Rightarrow> None
              | Some my_ssha1 \<Rightarrow>
          (case write_at my_ssha1 (1 + 2 * SHA_DIGEST_LENGTH + saltlen) NUL of
                None \<Rightarrow> None
              | Some my_ssha1 \<Rightarrow>
          (case write_at my_ssha1 0 CHR ''{'' of
                None \<Rightarrow> None
              | Some my_ssha1 \<Rightarrow> strcmp_eq0 ssha1 my_ssha1)))))))))"

subsection \<open>Notions for the statements about the tokens\<close>

text \<open>
  The hexadecimal rendering of a digest; the salt that \<open>tr_ssha1\<close> makes of the
  bytes in \<open>salt\<close>; and the contents of the \<open>hash\<close> buffer after \<open>tr_sha1\<close>, which
  is the digest, or what the buffer held before when the provider failed.
\<close>

definition hex_string :: "u8 list \<Rightarrow> string" where
  "hex_string bs = concat (map hex_of_byte bs)"

definition salt_of :: "(nat \<Rightarrow> u8) \<Rightarrow> string" where
  "salt_of salt0 = map (\<lambda>i. salter ! (unat (salt0 i) mod 64)) [0..<8]"

definition digest_or :: "(u8 list \<Rightarrow> u8 list option) \<Rightarrow> u8 list \<Rightarrow> u8 list \<Rightarrow> u8 list" where
  "digest_or sha1 msg junk = (case sha1 msg of None \<Rightarrow> junk | Some d \<Rightarrow> d)"

section \<open>Lemmas about the base-32 codec\<close>

subsection \<open>The encoder computes the specified encoding\<close>

lemma nat_bits_less: "(\<And>j. bit (d::nat) j \<Longrightarrow> j < n) \<Longrightarrow> d < 2 ^ n"
proof -
  assume a: "\<And>j. bit d j \<Longrightarrow> j < n"
  have "take_bit n d = d"
    by (rule bit_eqI) (auto simp: bit_take_bit_iff a)
  then show ?thesis
    by (metis take_bit_nat_less_exp)
qed

lemma mod8_cases: "index \<le> 3 \<Longrightarrow> (index + 5) mod 8 = (if index = 3 then 0 else index + 5)" for index :: nat
  by auto

lemma mod8_cases2: "3 < index \<Longrightarrow> index < 8 \<Longrightarrow> (index + 5) mod 8 = index - 3" for index :: nat
proof -
  assume "3 < index" "index < 8"
  then have "index + 5 = (index - 3) + 8" "index - 3 < 8" by simp_all
  then show ?thesis by (simp only: mod_add_self2) simp
qed

lemma divmod8: "r < 8 \<Longrightarrow> (8 * i + r) div 8 = i \<and> (8 * i + r) mod 8 = r" for i r :: nat
  by simp

lemma bit_255: "bit (255::nat) m = (m < 8)"
proof -
  have "(255::nat) = mask 8" by (simp add: mask_eq_exp_minus_1)
  then show ?thesis by (simp only: bit_mask_iff) simp
qed

lemma encode_digit_low:
  assumes "i < length inp" "index \<le> 3"
  shows "\<exists>d. encode_digit inp (length inp) i index = Some (d, (8 * i + index + 5) div 8, (8 * i + index + 5) mod 8)
     \<and> d < 32 \<and> (\<forall>j<5. bit d j = sbit inp (8 * i + index + 4 - j))"
proof -
  define d where "d = (drop_bit (8 - (index + 5)) (unat (inp ! i))) AND (0x1F::nat)"
  have m: "(0x1F::nat) = mask 5" by (simp add: mask_eq_exp_minus_1)
  have e: "encode_digit inp (length inp) i index = Some (d, (if (index + 5) mod 8 = 0 then i + 1 else i), (index + 5) mod 8)"
    using assms by (simp add: encode_digit_def read_at_def Let_def d_def)
  have iim: "(8 * i + index + 5) div 8 = (if (index + 5) mod 8 = 0 then i + 1 else i)
       \<and> (8 * i + index + 5) mod 8 = (index + 5) mod 8"
  proof (cases "index = 3")
    case True
    have "(8 * (i + 1) + 0) div 8 = i + 1 \<and> (8 * (i + 1) + 0) mod 8 = 0"
      by (rule divmod8) simp
    with True show ?thesis by simp
  next
    case False
    with assms(2) have "index + 5 < 8" by simp
    from divmod8 [OF this, of i] this False show ?thesis by (simp add: add.assoc)
  qed
  then have ii: "(8 * i + index + 5) div 8 = (if (index + 5) mod 8 = 0 then i + 1 else i)"
    and im: "(8 * i + index + 5) mod 8 = (index + 5) mod 8" by simp_all
  have b: "bit d j = (j < 5 \<and> bit (inp ! i) (j + 3 - index))" for j
    using assms(2) unfolding m d_def by (auto simp: bit_and_iff bit_mask_iff bit_drop_bit_eq bit_unsigned_iff ac_simps)
  have "d < 2 ^ 5" by (rule nat_bits_less) (use b in blast)
  moreover have "bit d j = sbit inp (8 * i + index + 4 - j)" if "j < 5" for j
  proof -
    have "8 * i + index + 4 - j = 8 * i + (index + 4 - j)" "index + 4 - j < 8"
      using that assms(2) by simp_all
    then have "(8 * i + index + 4 - j) div 8 = i" "(8 * i + index + 4 - j) mod 8 = index + 4 - j"
      by simp_all
    moreover have "7 - (index + 4 - j) = j + 3 - index" using that assms(2) by simp
    moreover have "8 * i + index + 4 - j < 8 * length inp" using that assms by simp
    ultimately show ?thesis using that by (simp add: b sbit_def)
  qed
  ultimately show ?thesis using e ii im by simp
qed

lemma encode_digit_high:
  assumes "i < length inp" "3 < index" "index < 8"
  shows "\<exists>d. encode_digit inp (length inp) i index = Some (d, (8 * i + index + 5) div 8, (8 * i + index + 5) mod 8)
     \<and> d < 32 \<and> (\<forall>j<5. bit d j = sbit inp (8 * i + index + 4 - j))"
proof -
  define nb :: nat where "nb = (if i + 1 < length inp then unat (inp ! (i + 1)) else 0)"
  define d where "d = push_bit (index - 3) (unat (inp ! i) AND drop_bit index (0xFF::nat)) OR drop_bit (8 - (index - 3)) nb"
  have e: "encode_digit inp (length inp) i index = Some (d, i + 1, index - 3)"
    using assms by (simp add: encode_digit_def read_at_def Let_def mod8_cases2 nb_def d_def)
  have "8 * i + index + 5 = 8 * (i + 1) + (index - 3)" "index - 3 < 8"
    using assms(2,3) by simp_all
  then have ii: "(8 * i + index + 5) div 8 = i + 1" "(8 * i + index + 5) mod 8 = index - 3"
    by (simp_all del: mult_Suc_right)
  have nbb: "bit nb m = (i + 1 < length inp \<and> m < 8 \<and> bit (inp ! (i + 1)) m)" for m
    by (auto simp: nb_def bit_unsigned_iff dest: bit_imp_le_length)
  have b: "bit d j = ((index - 3 \<le> j \<and> j < 5 \<and> bit (inp ! i) (j + 3 - index))
         \<or> (i + 1 < length inp \<and> j + 3 < index \<and> bit (inp ! (i + 1)) (j + 11 - index)))" for j
    using assms(2,3) unfolding d_def
    by (auto simp: bit_or_iff bit_and_iff bit_push_bit_iff bit_drop_bit_eq bit_unsigned_iff bit_255 nbb ac_simps)
  have "d < 2 ^ 5" by (rule nat_bits_less) (use b assms in auto)
  moreover have "bit d j = sbit inp (8 * i + index + 4 - j)" if "j < 5" for j
  proof (cases "index - 3 \<le> j")
    case True
    then have "8 * i + index + 4 - j = 8 * i + (index + 4 - j)" "index + 4 - j < 8"
      using that assms(2,3) by simp_all
    then have "(8 * i + index + 4 - j) div 8 = i" "(8 * i + index + 4 - j) mod 8 = index + 4 - j"
      by simp_all
    moreover have "7 - (index + 4 - j) = j + 3 - index" using that assms(2,3) True by simp
    moreover have "8 * i + index + 4 - j < 8 * length inp" using that assms True by simp
    ultimately show ?thesis using that True by (auto simp add: b sbit_def)
  next
    case False
    then have "8 * i + index + 4 - j = 8 * (i + 1) + (index - 4 - j)" "index - 4 - j < 8"
      using that assms(2,3) by simp_all
    then have "(8 * i + index + 4 - j) div 8 = i + 1" "(8 * i + index + 4 - j) mod 8 = index - 4 - j"
      by (simp_all del: mult_Suc_right add.commute)
    moreover have "7 - (index - 4 - j) = j + 11 - index" using that assms(2,3) False by simp
    moreover have "8 * i + index + 4 - j < 8 * length inp \<longleftrightarrow> i + 1 < length inp" using that assms False by auto
    ultimately show ?thesis using that False by (auto simp add: b sbit_def)
  qed
  ultimately show ?thesis using e ii by simp
qed

lemma encode_digit_spec:
  assumes "i < length inp" "index < 8"
  shows "\<exists>d. encode_digit inp (length inp) i index = Some (d, (8 * i + index + 5) div 8, (8 * i + index + 5) mod 8)
     \<and> d < 32 \<and> (\<forall>j<5. bit d j = sbit inp (8 * i + index + 4 - j))"
  using assms encode_digit_low [of i inp index] encode_digit_high [of i inp index]
  by (cases "index \<le> 3") simp_all

lemma ceil5_step: "0 < n \<Longrightarrow> (n + 4) div 5 = Suc ((n - 5 + 4) div 5)" for n :: nat
proof (cases "5 \<le> n")
  case True
  then have "n + 4 = (n - 5 + 4) + 5" by simp
  then show ?thesis by (simp only: div_add_self2)
next
  case False
  moreover assume "0 < n"
  ultimately have "n \<in> {1, 2, 3, 4}" by auto
  then show ?thesis by auto
qed

lemma nth_bits_of_byte: "p < 8 \<Longrightarrow> bits_of_byte b ! p = bit b (7 - p)"
proof -
  assume "p < 8"
  then consider "p = 0" | "p = 1" | "p = 2" | "p = 3" | "p = 4" | "p = 5" | "p = 6" | "p = 7"
    by linarith
  then show ?thesis
    by cases (simp_all add: bits_of_byte_def)
qed

lemma length_bitstream: "length (bitstream bs) = 8 * length bs"
  by (induction bs) (simp_all add: bitstream_def bits_of_byte_def)

lemma nth_bitstream: "p < 8 * length bs \<Longrightarrow> bitstream bs ! p = bit (bs ! (p div 8)) (7 - p mod 8)"
proof (induction bs arbitrary: p)
  case Nil
  then show ?case by simp
next
  case (Cons b bs)
  show ?case
  proof (cases "p < 8")
    case True
    have "length (bits_of_byte b) = 8" by (simp add: bits_of_byte_def)
    moreover have "bitstream (b # bs) = bits_of_byte b @ bitstream bs" by (simp add: bitstream_def)
    ultimately have "bitstream (b # bs) ! p = bits_of_byte b ! p"
      using True by (simp only: nth_append) simp
    with True show ?thesis by (simp add: nth_bits_of_byte)
  next
    case False
    then have p: "p = (p - 8) + 8" by simp
    have "(p - 8 + 8) div 8 = Suc ((p - 8) div 8)" "(p - 8 + 8) mod 8 = (p - 8) mod 8"
      by simp_all
    with p have dm: "p div 8 = Suc ((p - 8) div 8)" "p mod 8 = (p - 8) mod 8"
      by simp_all
    have "length (bits_of_byte b) = 8" by (simp add: bits_of_byte_def)
    moreover have "bitstream (b # bs) = bits_of_byte b @ bitstream bs" by (simp add: bitstream_def)
    ultimately have "bitstream (b # bs) ! p = bitstream bs ! (p - 8)"
      using False by (simp only: nth_append) simp
    also have "\<dots> = bit (bs ! ((p - 8) div 8)) (7 - (p - 8) mod 8)"
      using Cons.prems False by (intro Cons.IH) simp
    finally show ?thesis by (simp only: dm nth_Cons_Suc)
  qed
qed

lemma length_groups5: "length (groups5 xs) = (length xs + 4) div 5"
proof (induction xs rule: groups5.induct)
  case (1 bs)
  show ?case
  proof (cases "bs = []")
    case True
    then show ?thesis by (simp add: groups5.simps)
  next
    case False
    then have "length bs > 0" by simp
    then have "(length bs + 4) div 5 = Suc ((length bs - 5 + 4) div 5)"
      by (simp add: ceil5_step)
    with 1 False show ?thesis by (subst groups5.simps) simp
  qed
qed

lemma nth_groups5:
  "k < (length xs + 4) div 5 \<Longrightarrow> groups5 xs ! k = take 5 (drop (5 * k) xs @ replicate 4 False)"
proof (induction xs arbitrary: k rule: groups5.induct)
  case (1 bs)
  from 1(2) have ne: "bs \<noteq> []" by auto
  show ?case
  proof (cases k)
    case 0
    with ne show ?thesis by (subst groups5.simps) simp
  next
    case (Suc k')
    have "length bs > 0" using ne by simp
    then have "(length bs + 4) div 5 = Suc ((length bs - 5 + 4) div 5)"
      by (simp add: ceil5_step)
    with 1(2) Suc have "k' < (length (drop 5 bs) + 4) div 5" by simp
    from 1(1) [OF ne this] Suc ne show ?thesis
      by (subst groups5.simps) (simp add: add.commute)
  qed
qed

lemma msb_value_snoc: "msb_value (g @ [b]) = 2 * msb_value g + of_bool b"
  by (simp add: msb_value_def)

lemma bit_msb_value: "bit (msb_value g) j = (j < length g \<and> g ! (length g - 1 - j))"
proof (induction g arbitrary: j rule: rev_induct)
  case Nil
  then show ?case by (simp add: msb_value_def)
next
  case (snoc b g)
  show ?case
  proof (cases j)
    case 0
    then show ?thesis by (simp add: msb_value_snoc bit_0)
  next
    case (Suc j')
    have "bit (2 * msb_value g + of_bool b) (Suc j') = bit (msb_value g) j'"
      by (simp add: bit_Suc)
    then show ?thesis using Suc snoc [of j'] by (auto simp add: msb_value_snoc nth_append)
  qed
qed

lemma lt_ceil5: "k < (m + 4) div 5 \<longleftrightarrow> 5 * k < m" for k m :: nat
  by linarith

lemma length_spec_base32_encode: "length (spec_base32_encode inp) = (8 * length inp + 4) div 5"
  by (simp add: spec_base32_encode_def length_groups5 length_bitstream)

lemma length_base32_chars: "length base32_chars = 32"
  by (simp add: base32_chars_def)

lemma group_value:
  assumes "5 * k < 8 * length inp" "d < 32" "\<forall>j<5. bit d j = sbit inp (5 * k + 4 - j)"
  shows "msb_value (groups5 (bitstream inp) ! k) = d"
proof -
  define g where "g = take 5 (drop (5 * k) (bitstream inp) @ replicate 4 False)"
  have g: "groups5 (bitstream inp) ! k = g"
    using assms(1) by (simp add: nth_groups5 lt_ceil5 length_bitstream g_def)
  have lg: "length g = 5"
    using assms(1) by (simp add: g_def length_bitstream)
  have nth: "g ! m = sbit inp (5 * k + m)" if "m < 5" for m
  proof (cases "5 * k + m < 8 * length inp")
    case True
    then have "m < 8 * length inp - 5 * k" by simp
    with True show ?thesis using that
      by (simp add: g_def nth_append length_bitstream nth_bitstream sbit_def)
  next
    case False
    then have "\<not> m < 8 * length inp - 5 * k" by simp
    with False show ?thesis using that assms(1)
      by (simp add: g_def nth_append length_bitstream sbit_def)
  qed
  have "bit (msb_value g) j = bit d j" for j
  proof (cases "j < 5")
    case True
    then have "4 - j < 5" "5 * k + (4 - j) = 5 * k + 4 - j" by simp_all
    with True show ?thesis using assms(3) nth [of "4 - j"] by (simp add: bit_msb_value lg)
  next
    case False
    have "d < 2 ^ 5" using assms(2) by simp
    then have "\<not> bit d j" using False
      by (metis bit_take_bit_iff take_bit_nat_eq_self)
    then show ?thesis using False by (simp add: bit_msb_value lg)
  qed
  then have "msb_value g = d" by (rule bit_eqI)
  with g show ?thesis by simp
qed

lemma encode_loop_spec:
  assumes "k \<le> (8 * length inp + 4) div 5" "pos + ((8 * length inp + 4) div 5 - k) \<le> length out"
  shows "encode_loop inp (length inp) (5 * k div 8) (5 * k mod 8) out pos =
    Some (take pos out @ drop k (spec_base32_encode inp) @ drop (pos + ((8 * length inp + 4) div 5 - k)) out)"
  using assms
proof (induction "(8 * length inp + 4) div 5 - k" arbitrary: k out pos)
  case 0
  then have "k = (8 * length inp + 4) div 5" by simp
  then have "\<not> 5 * k < 8 * length inp" using lt_ceil5 [of k "8 * length inp"] by simp
  then have "\<not> 5 * k div 8 < length inp" by linarith
  moreover have "drop k (spec_base32_encode inp) = []"
    using 0 by (simp add: length_spec_base32_encode)
  ultimately show ?case using 0 by (subst encode_loop.simps) simp
next
  case (Suc m)
  let ?L = "(8 * length inp + 4) div 5"
  from Suc(2) have kL: "k < ?L" by simp
  then have lt: "5 * k < 8 * length inp" by (simp add: lt_ceil5)
  then have i: "5 * k div 8 < length inp" by linarith
  have ix: "5 * k mod 8 < 8" by simp
  have p: "8 * (5 * k div 8) + 5 * k mod 8 = 5 * k" by simp
  from encode_digit_spec [OF i ix] obtain d where
    d: "encode_digit inp (length inp) (5 * k div 8) (5 * k mod 8) = Some (d, (5 * k + 5) div 8, (5 * k + 5) mod 8)"
    and d32: "d < 32" and bits: "\<forall>j<5. bit d j = sbit inp (5 * k + 4 - j)"
    unfolding p by blast
  have sym: "spec_base32_encode inp ! k = base32_chars ! d"
    using kL group_value [OF lt d32 bits]
    by (simp add: spec_base32_encode_def length_groups5 length_bitstream)
  have pos: "pos < length out" using Suc(4) kL by simp
  have k1: "5 * k + 5 = 5 * (k + 1)" by simp
  have IH: "encode_loop inp (length inp) (5 * (k + 1) div 8) (5 * (k + 1) mod 8) (out[pos := base32_chars ! d]) (pos + 1) =
    Some (take (pos + 1) (out[pos := base32_chars ! d]) @ drop (k + 1) (spec_base32_encode inp)
          @ drop (pos + 1 + (?L - (k + 1))) (out[pos := base32_chars ! d]))"
    using Suc(2,3,4) kL by (intro Suc(1)) simp_all
  have "encode_loop inp (length inp) (5 * k div 8) (5 * k mod 8) out pos =
     encode_loop inp (length inp) (5 * (k + 1) div 8) (5 * (k + 1) mod 8) (out[pos := base32_chars ! d]) (pos + 1)"
    using i d d32 pos
    by (subst encode_loop.simps) (simp add: read_at_def write_at_def length_base32_chars k1 del: encode_loop.simps)
  also note IH
  also have "take (pos + 1) (out[pos := base32_chars ! d]) = take pos out @ [base32_chars ! d]"
    using pos by (simp add: take_Suc_conv_app_nth)
  also have "drop (pos + 1 + (?L - (k + 1))) (out[pos := base32_chars ! d]) = drop (pos + (?L - k)) out"
  proof -
    have "pos + 1 + (?L - (k + 1)) = pos + (?L - k)" using kL by linarith
    moreover have "pos < pos + (?L - k)" using kL by linarith
    ultimately show ?thesis by (simp only: drop_update_cancel)
  qed
  finally show ?case
    using kL sym by (simp add: Cons_nth_drop_Suc [symmetric] length_spec_base32_encode)
qed

subsection \<open>The decoder's loop over characters and over digits\<close>

lemma decode_loop_list:
  "n \<le> length inp \<Longrightarrow> i \<le> n \<Longrightarrow> decode_loop inp n L i st = decode_list L (drop i (take n inp)) st"
proof (induction "n - i" arbitrary: i st)
  case 0
  then show ?case by (subst decode_loop.simps) simp
next
  case (Suc m)
  then have i: "i < n" "i < length inp" by simp_all
  then have d: "drop i (take n inp) = inp ! i # drop (Suc i) (take n inp)"
    by (simp add: Cons_nth_drop_Suc [symmetric])
  have IH: "decode_loop inp n L (Suc i) st' = decode_list L (drop (Suc i) (take n inp)) st'" for st'
    using Suc by (intro Suc(1)) simp_all
  show ?case
    using i by (subst decode_loop.simps) (simp add: d read_at_def IH split: option.splits loop_exit.splits del: decode_loop.simps)
qed

lemma or_at_eq:
  "or_at out offset v = (if offset < length out then Some (out[offset := out ! offset OR word_of_int v]) else None)"
proof -
  have "word_of_int (uint b OR v) = b OR word_of_int v" for b :: u8
    by (simp add: word_wi_log_defs(3) [symmetric])
  then show ?thesis
    by (simp add: or_at_def read_at_def write_at_def)
qed

lemma lookup_range: "\<forall>x\<in>set base32_lookup. x = 0xFF \<or> (0 \<le> x \<and> x < 32)"
  by (simp add: base32_lookup_def)

lemma digit_of_range: "digit_of c = Some d \<Longrightarrow> 0 \<le> d \<and> d < 32"
  using lookup_range
  by (auto simp: digit_of_def Let_def base32_lookup_size_def split: if_splits)

lemma decode_step_digit:
  "index < 8 \<Longrightarrow> decode_step L c (index, offset, out) =
    (case digit_of c of None \<Rightarrow> Some (Continue (index, offset, out)) | Some d \<Rightarrow> put_digit L d (index, offset, out))"
proof (cases "digit_of c")
  case None
  then show ?thesis
    by (auto simp: decode_step_def digit_of_def Let_def read_at_def base32_lookup_size_def split: if_splits)
next
  case (Some d)
  assume ix: "index < 8"
  let ?l = "to_size_t (of_char c - 48)"
  from Some have l: "?l < length base32_lookup" "base32_lookup ! ?l = d" "d \<noteq> 255"
    by (auto simp: digit_of_def Let_def base32_lookup_size_def split: if_splits)
  show ?thesis
  proof (cases "index \<le> 3")
    case True
    then have m: "(index + 5) mod 8 = (if index = 3 then 0 else index + 5)" by auto
    have s: "8 - (index + 5) = 3 - index" by simp
    show ?thesis using True l Some
      by (simp add: decode_step_def put_digit_def Let_def read_at_def base32_lookup_size_def or_at_eq m s)
  next
    case False
    with ix have "index + 5 = (index - 3) + 8" "index - 3 < 8" by simp_all
    then have m: "(index + 5) mod 8 = index - 3" by (simp only: mod_add_self2) simp
    have s: "8 - (index - 3) = 11 - index" "0 < index - 3" using False ix by simp_all
    show ?thesis using False l Some
      by (simp add: decode_step_def put_digit_def Let_def read_at_def base32_lookup_size_def or_at_eq m s)
  qed
qed

lemma put_digit_index:
  "index < 8 \<Longrightarrow> put_digit L d (index, offset, out) = Some (Continue (index', offset', out')) \<Longrightarrow> index' < 8"
  by (auto simp: put_digit_def split: if_splits)

lemma decode_list_digits:
  "index < 8 \<Longrightarrow> decode_list L cs (index, offset, out) = decode_digits L (valid_digits cs) (index, offset, out)"
proof (induction cs arbitrary: index offset out)
  case Nil
  then show ?case by (simp add: valid_digits_def map_filter_simps)
next
  case (Cons c cs)
  show ?case
  proof (cases "digit_of c")
    case None
    then show ?thesis using Cons
      by (simp add: decode_step_digit valid_digits_def map_filter_simps)
  next
    case (Some d)
    then have v: "valid_digits (c # cs) = d # valid_digits cs"
      by (simp add: valid_digits_def map_filter_simps)
    show ?thesis
    proof (cases "put_digit L d (index, offset, out)")
      case None
      then show ?thesis using Cons.prems Some by (simp add: decode_step_digit v)
    next
      case (Some r)
      show ?thesis
      proof (cases r)
        case (Break o')
        then show ?thesis using Cons.prems Some \<open>digit_of c = Some d\<close> by (simp add: decode_step_digit v)
      next
        case (Continue st')
        obtain index' offset' out' where st': "st' = (index', offset', out')" by (cases st')
        have "index' < 8" using put_digit_index [OF Cons.prems] Some Continue st' by simp
        from Cons.IH [OF this] show ?thesis
          using Cons.prems Some \<open>digit_of c = Some d\<close> Continue st' by (simp add: decode_step_digit v)
      qed
    qed
  qed
qed

subsection \<open>The invariant of the decoder's loop\<close>

lemma dbit_at: "t < 5 \<Longrightarrow> dbit ds (5 * k + t) = (k < length ds \<and> bit (ds ! k) (4 - t))"
  by (simp add: dbit_def)

lemma bit_digit: "0 \<le> d \<Longrightarrow> d < 32 \<Longrightarrow> bit d j \<Longrightarrow> j < 5" for d :: int
proof (rule ccontr)
  assume d: "0 \<le> d" "d < 32" and b: "bit d j" and "\<not> j < 5"
  then have "(2::int) ^ 5 \<le> 2 ^ j" by (intro power_increasing) simp_all
  with d have "d < 2 ^ j" by simp
  with d(1) have "d div 2 ^ j = 0" by simp
  with b show False by (simp add: bit_iff_odd)
qed

lemma dbit_cur:
  assumes "8 * offset + index = 5 * k" "k < length ds" "index \<le> 7 - m" "7 - m < index + 5" "m < 8"
  shows "dbit ds (8 * offset + 7 - m) = bit (ds ! k) (m + index - 3)"
proof -
  have "8 * offset + 7 - m = 5 * k + (7 - m - index)" "7 - m - index < 5" "4 - (7 - m - index) = m + index - 3"
    using assms by linarith+
  then show ?thesis using assms(2) by (simp only: dbit_at) simp
qed

lemma dbit_next:
  assumes "8 * offset + index = 5 * k" "k < length ds" "11 - index \<le> m" "m < 8" "index < 8"
  shows "dbit ds (8 * (offset + 1) + 7 - m) = bit (ds ! k) (m + index - 11)"
proof -
  have mi: "11 \<le> m + index" "m + index \<le> 15" using assms(3,4,5) by linarith+
  have "8 * (offset + 1) + 7 - m = 8 * offset + index + (15 - m - index)"
    using mi assms(4) by simp
  then have "8 * (offset + 1) + 7 - m = 5 * k + (15 - m - index)"
    using assms(1) by simp
  moreover have "15 - m - index < 5" "4 - (15 - m - index) = m + index - 11"
    using mi by linarith+
  ultimately have "8 * (offset + 1) + 7 - m = 5 * k + (15 - m - index)" "15 - m - index < 5" "4 - (15 - m - index) = m + index - 11"
    by simp_all
  then show ?thesis using assms(2) by (simp only: dbit_at) simp
qed

lemma bit_or_word_of_int:
  "bit (b OR word_of_int v :: u8) m = (bit b m \<or> (m < 8 \<and> bit v m))"
  by (simp add: bit_or_iff bit_word_of_int_iff)

lemma put_digit_low:
  assumes inv: "dec_inv L ds k (index, offset, out)" and k: "k < length ds"
    and d: "0 \<le> ds ! k" "ds ! k < 32" and ix: "index < 3"
  shows "\<exists>out'. put_digit L (ds ! k) (index, offset, out) = Some (Continue (index + 5, offset, out'))
      \<and> dec_inv L ds (k + 1) (index + 5, offset, out') \<and> drop L out' = drop L out \<and> length out' = length out"
proof -
  let ?d = "ds ! k"
  define out' where "out' = out[offset := out ! offset OR word_of_int (push_bit (3 - index) ?d)]"
  from inv have pos: "8 * offset + index = 5 * k" and off: "offset < L" "L \<le> length out"
    and dn: "\<forall>y<offset. \<forall>m<8. bit (out ! y) m = dbit ds (8 * y + 7 - m)"
    and cur: "\<forall>m<8. bit (out ! offset) m = (7 - m < index \<and> dbit ds (8 * offset + 7 - m))"
    and rest: "\<forall>y. offset < y \<and> y < L \<longrightarrow> out ! y = 0"
    by (simp_all add: dec_inv_def)
  have e: "put_digit L ?d (index, offset, out) = Some (Continue (index + 5, offset, out'))"
    using ix off by (simp add: put_digit_def out'_def)
  have cur': "bit (out' ! offset) m = (7 - m < index + 5 \<and> dbit ds (8 * offset + 7 - m))" if m: "m < 8" for m
  proof -
    have b: "bit (out' ! offset) m = ((7 - m < index \<and> dbit ds (8 * offset + 7 - m)) \<or> (3 - index \<le> m \<and> bit ?d (m - (3 - index))))"
      using off m cur by (simp add: out'_def bit_or_word_of_int bit_push_bit_iff)
    consider "7 - m < index" | "index \<le> 7 - m" "7 - m < index + 5" | "index + 5 \<le> 7 - m" by linarith
    then show ?thesis
    proof cases
      case 1
      then have "\<not> m - (3 - index) < 5" using m ix by linarith
      then have "\<not> bit ?d (m - (3 - index))" using bit_digit [OF d] by blast
      with 1 b show ?thesis by simp
    next
      case 2
      have "m - (3 - index) = m + index - 3" "3 - index \<le> m" using 2 m ix by linarith+
      with 2 b dbit_cur [OF pos k 2 m] show ?thesis by simp
    next
      case 3
      then have "\<not> 3 - index \<le> m" "\<not> 7 - m < index" "\<not> 7 - m < index + 5" using m ix by linarith+
      with b show ?thesis by simp
    qed
  qed
  have "dec_inv L ds (k + 1) (index + 5, offset, out')"
    unfolding dec_inv_def using ix pos off dn rest cur'
    by (simp add: out'_def)
  moreover have "drop L out' = drop L out" using off by (simp add: out'_def)
  ultimately show ?thesis using e by (simp add: out'_def)
qed

lemma put_digit_mid:
  assumes inv: "dec_inv L ds k (3, offset, out)" and k: "k < length ds"
    and d: "0 \<le> ds ! k" "ds ! k < 32"
  shows "\<exists>out'. put_digit L (ds ! k) (3, offset, out) =
           Some (if offset + 1 \<ge> L then Break out' else Continue (0, offset + 1, out'))
      \<and> (if offset + 1 \<ge> L then dec_final L ds out' else dec_inv L ds (k + 1) (0, offset + 1, out'))
      \<and> drop L out' = drop L out \<and> length out' = length out"
proof -
  let ?d = "ds ! k"
  define out' where "out' = out[offset := out ! offset OR word_of_int ?d]"
  from inv have pos: "8 * offset + 3 = 5 * k" and off: "offset < L" "L \<le> length out"
    and dn: "\<forall>y<offset. \<forall>m<8. bit (out ! y) m = dbit ds (8 * y + 7 - m)"
    and cur: "\<forall>m<8. bit (out ! offset) m = (7 - m < 3 \<and> dbit ds (8 * offset + 7 - m))"
    and rest: "\<forall>y. offset < y \<and> y < L \<longrightarrow> out ! y = 0"
    by (simp_all add: dec_inv_def)
  have e: "put_digit L ?d (3, offset, out) = Some (if offset + 1 \<ge> L then Break out' else Continue (0, offset + 1, out'))"
    using off by (simp add: put_digit_def out'_def)
  have cur': "bit (out' ! offset) m = dbit ds (8 * offset + 7 - m)" if m: "m < 8" for m
  proof -
    have b: "bit (out' ! offset) m = ((7 - m < 3 \<and> dbit ds (8 * offset + 7 - m)) \<or> bit ?d m)"
      using off m cur by (simp add: out'_def bit_or_word_of_int)
    show ?thesis
    proof (cases "7 - m < 3")
      case True
      then have "\<not> m < 5" by linarith
      then have "\<not> bit ?d m" using bit_digit [OF d] by blast
      with True b show ?thesis by simp
    next
      case False
      then have 2: "3 \<le> 7 - m" "7 - m < 3 + 5" using m by linarith+
      have "m + 3 - 3 = m" by simp
      with False b dbit_cur [OF pos k 2 m] show ?thesis by simp
    qed
  qed
  have all: "bit (out' ! y) m = dbit ds (8 * y + 7 - m)" if "y < offset + 1" "m < 8" for y m
  proof (cases "y = offset")
    case True
    with cur' that show ?thesis by simp
  next
    case False
    with that have "y < offset" by simp
    with dn that False show ?thesis by (simp add: out'_def)
  qed
  have fin: "dec_final L ds out'" if "offset + 1 \<ge> L"
  proof -
    from that off have "L = offset + 1" by simp
    with all off show ?thesis by (simp add: dec_final_def out'_def)
  qed
  have nxt: "dec_inv L ds (k + 1) (0, offset + 1, out')" if "\<not> offset + 1 \<ge> L"
    unfolding dec_inv_def using that pos off rest all
    by (simp add: out'_def)
  have "drop L out' = drop L out" using off by (simp add: out'_def)
  then show ?thesis using e fin nxt by (auto simp: out'_def)
qed

lemma put_digit_high:
  assumes inv: "dec_inv L ds k (index, offset, out)" and k: "k < length ds"
    and d: "0 \<le> ds ! k" "ds ! k < 32" and ix: "3 < index"
  shows "\<exists>out'. put_digit L (ds ! k) (index, offset, out) =
           Some (if offset + 1 \<ge> L then Break out' else Continue (index - 3, offset + 1, out'))
      \<and> (if offset + 1 \<ge> L then dec_final L ds out' else dec_inv L ds (k + 1) (index - 3, offset + 1, out'))
      \<and> drop L out' = drop L out \<and> length out' = length out"
proof -
  let ?d = "ds ! k"
  define out1 where "out1 = out[offset := out ! offset OR word_of_int (drop_bit (index - 3) ?d)]"
  define out2 where "out2 = out1[offset + 1 := out ! (offset + 1) OR word_of_int (push_bit (11 - index) ?d)]"
  define out' where "out' = (if offset + 1 \<ge> L then out1 else out2)"
  from inv have i8: "index < 8" and pos: "8 * offset + index = 5 * k" and off: "offset < L" "L \<le> length out"
    and dn: "\<forall>y<offset. \<forall>m<8. bit (out ! y) m = dbit ds (8 * y + 7 - m)"
    and cur: "\<forall>m<8. bit (out ! offset) m = (7 - m < index \<and> dbit ds (8 * offset + 7 - m))"
    and rest: "\<forall>y. offset < y \<and> y < L \<longrightarrow> out ! y = 0"
    by (simp_all add: dec_inv_def)
  have e: "put_digit L ?d (index, offset, out) = Some (if offset + 1 \<ge> L then Break out' else Continue (index - 3, offset + 1, out'))"
    using off ix by (simp add: put_digit_def out'_def out1_def out2_def)
  have cur1: "bit (out1 ! offset) m = dbit ds (8 * offset + 7 - m)" if m: "m < 8" for m
  proof -
    have b: "bit (out1 ! offset) m = ((7 - m < index \<and> dbit ds (8 * offset + 7 - m)) \<or> bit ?d (m + (index - 3)))"
      using off m cur by (simp add: out1_def bit_or_word_of_int bit_drop_bit_eq add.commute)
    show ?thesis
    proof (cases "7 - m < index")
      case True
      then have "\<not> m + (index - 3) < 5" using ix by linarith
      then have "\<not> bit ?d (m + (index - 3))" using bit_digit [OF d] by blast
      with True b show ?thesis by simp
    next
      case False
      then have 2: "index \<le> 7 - m" "7 - m < index + 5" using m ix by linarith+
      have "m + (index - 3) = m + index - 3" using ix by simp
      with False b dbit_cur [OF pos k 2 m] show ?thesis by simp
    qed
  qed
  have all1: "bit (out1 ! y) m = dbit ds (8 * y + 7 - m)" if "y < offset + 1" "m < 8" for y m
  proof (cases "y = offset")
    case True
    with cur1 that show ?thesis by simp
  next
    case False
    with that have "y < offset" by simp
    with dn that False show ?thesis by (simp add: out1_def)
  qed
  have fin: "dec_final L ds out'" if "offset + 1 \<ge> L"
  proof -
    from that off have "L = offset + 1" by simp
    with all1 off that show ?thesis by (simp add: dec_final_def out'_def out1_def)
  qed
  have nxt: "dec_inv L ds (k + 1) (index - 3, offset + 1, out')" if nb: "\<not> offset + 1 \<ge> L"
  proof -
    have o1: "offset + 1 < length out" "out ! (offset + 1) = 0" using nb off rest by simp_all
    have cur2: "bit (out2 ! (offset + 1)) m = (7 - m < index - 3 \<and> dbit ds (8 * (offset + 1) + 7 - m))" if m: "m < 8" for m
    proof -
      have b: "bit (out2 ! (offset + 1)) m = (11 - index \<le> m \<and> bit ?d (m - (11 - index)))"
        using o1 m by (simp add: out2_def out1_def bit_word_of_int_iff bit_push_bit_iff)
      show ?thesis
      proof (cases "11 - index \<le> m")
        case True
        then have "m - (11 - index) = m + index - 11" "7 - m < index - 3" using m i8 ix by linarith+
        with True b dbit_next [OF pos k True m i8] show ?thesis by simp
      next
        case False
        then have "\<not> 7 - m < index - 3" using m i8 ix by linarith
        with False b show ?thesis by simp
      qed
    qed
    have all2: "bit (out2 ! y) m = dbit ds (8 * y + 7 - m)" if "y < offset + 1" "m < 8" for y m
      using all1 [OF that] that(1) by (simp add: out2_def)
    have rest2: "out2 ! y = 0" if "offset + 1 < y" "y < L" for y
      using that rest by (simp add: out2_def out1_def)
    have "8 * (offset + 1) + (index - 3) = 5 * (k + 1)" using pos ix by simp
    moreover have "length out2 = length out" by (simp add: out2_def out1_def)
    ultimately show ?thesis
      unfolding dec_inv_def using nb off i8 all2 cur2 rest2
      by (simp add: out'_def)
  qed
  have "drop L out' = drop L out" using off by (simp add: out'_def out1_def out2_def)
  moreover have "length out' = length out" by (simp add: out'_def out1_def out2_def)
  ultimately show ?thesis using e fin nxt by auto
qed

lemma dbit_beyond: "5 * length ds \<le> q \<Longrightarrow> \<not> dbit ds q"
proof -
  assume "5 * length ds \<le> q"
  then have "length ds \<le> q div 5" by linarith
  then show ?thesis by (simp add: dbit_def)
qed

lemma dec_inv_final:
  assumes "dec_inv L ds (length ds) (index, offset, out)"
  shows "dec_final L ds out"
proof -
  from assms have i8: "index < 8" and pos: "8 * offset + index = 5 * length ds" and off: "offset < L" "L \<le> length out"
    and dn: "\<forall>y<offset. \<forall>m<8. bit (out ! y) m = dbit ds (8 * y + 7 - m)"
    and cur: "\<forall>m<8. bit (out ! offset) m = (7 - m < index \<and> dbit ds (8 * offset + 7 - m))"
    and rest: "\<forall>y. offset < y \<and> y < L \<longrightarrow> out ! y = 0"
    by (simp_all add: dec_inv_def)
  have "bit (out ! y) m = dbit ds (8 * y + 7 - m)" if "y < L" "m < 8" for y m
  proof -
    consider "y < offset" | "y = offset" | "offset < y" by linarith
    then show ?thesis
    proof cases
      case 1
      with dn that show ?thesis by simp
    next
      case 2
      show ?thesis
      proof (cases "7 - m < index")
        case True
        with cur that 2 show ?thesis by simp
      next
        case False
        then have "5 * length ds \<le> 8 * offset + 7 - m" using pos that by linarith
        from dbit_beyond [OF this] False cur that 2 show ?thesis by simp
      qed
    next
      case 3
      then have "5 * length ds \<le> 8 * y + 7 - m" using pos that i8 by linarith
      from dbit_beyond [OF this] rest 3 that show ?thesis by simp
    qed
  qed
  with off show ?thesis by (simp add: dec_final_def)
qed

lemma put_digit_inv:
  assumes inv: "dec_inv L ds k (index, offset, out)" and k: "k < length ds"
    and d: "0 \<le> ds ! k" "ds ! k < 32"
  shows "(\<exists>index' offset' out'. put_digit L (ds ! k) (index, offset, out) = Some (Continue (index', offset', out'))
            \<and> dec_inv L ds (k + 1) (index', offset', out') \<and> drop L out' = drop L out \<and> length out' = length out)
       \<or> (\<exists>out'. put_digit L (ds ! k) (index, offset, out) = Some (Break out')
            \<and> dec_final L ds out' \<and> drop L out' = drop L out \<and> length out' = length out)"
proof -
  consider "index < 3" | "index = 3" | "3 < index" by linarith
  then show ?thesis
  proof cases
    case 1
    from put_digit_low [OF inv k d 1] show ?thesis by blast
  next
    case 2
    from put_digit_mid [OF inv [unfolded 2] k d] show ?thesis
      unfolding 2 by (cases "offset + 1 \<ge> L") auto
  next
    case 3
    from put_digit_high [OF inv k d 3] show ?thesis
      by (cases "offset + 1 \<ge> L") auto
  qed
qed

lemma decode_digits_inv:
  assumes "dec_inv L ds k st" "k \<le> length ds" "\<forall>d\<in>set ds. 0 \<le> d \<and> d < 32"
  shows "\<exists>out'. decode_digits L (drop k ds) st = Some out' \<and> dec_final L ds out'
     \<and> drop L out' = drop L (snd (snd st)) \<and> length out' = length (snd (snd st))"
  using assms
proof (induction "length ds - k" arbitrary: k st)
  case 0
  obtain index offset out where st: "st = (index, offset, out)" by (cases st)
  from 0 have "k = length ds" by simp
  with 0 st dec_inv_final [of L ds index offset out] show ?case by simp
next
  case (Suc n)
  obtain index offset out where st: "st = (index, offset, out)" by (cases st)
  from Suc(2) have k: "k < length ds" by simp
  then have dr: "drop k ds = ds ! k # drop (k + 1) ds" by (simp add: Cons_nth_drop_Suc)
  from k Suc(5) have d: "0 \<le> ds ! k" "ds ! k < 32" by simp_all
  from put_digit_inv [OF Suc(3) [unfolded st] k d] show ?case
  proof (elim disjE exE conjE)
    fix index' offset' out'
    assume p: "put_digit L (ds ! k) (index, offset, out) = Some (Continue (index', offset', out'))"
      and inv': "dec_inv L ds (k + 1) (index', offset', out')"
      and fr: "drop L out' = drop L out" "length out' = length out"
    have "\<exists>r. decode_digits L (drop (k + 1) ds) (index', offset', out') = Some r \<and> dec_final L ds r
       \<and> drop L r = drop L (snd (snd (index', offset', out'))) \<and> length r = length (snd (snd (index', offset', out')))"
      using Suc(2) k Suc(5) inv' by (intro Suc(1)) simp_all
    with p fr show ?thesis by (simp add: st dr)
  next
    fix out'
    assume "put_digit L (ds ! k) (index, offset, out) = Some (Break out')" "dec_final L ds out'"
      "drop L out' = drop L out" "length out' = length out"
    then show ?thesis by (simp add: st dr)
  qed
qed

subsection \<open>The decoder as a whole\<close>

lemma strip_padding_spec:
  "n \<le> length inp \<Longrightarrow> strip_padding inp n = Some (length (strip_trailing (take n inp)))"
proof (induction n)
  case 0
  then show ?case by (simp add: strip_trailing_def)
next
  case (Suc n)
  then have "take (Suc n) inp = take n inp @ [inp ! n]"
    by (simp add: take_Suc_conv_app_nth)
  with Suc show ?case by (simp add: strip_trailing_def read_at_def)
qed

lemma strip_trailing_prefix: "take (length (strip_trailing cs)) cs = strip_trailing cs"
proof -
  have "rev cs = takeWhile (\<lambda>c. c = CHR ''='') (rev cs) @ dropWhile (\<lambda>c. c = CHR ''='') (rev cs)"
    by simp
  then have "cs = strip_trailing cs @ rev (takeWhile (\<lambda>c. c = CHR ''='') (rev cs))"
    unfolding strip_trailing_def by (metis rev_append rev_rev_ident)
  then show ?thesis by (metis append_eq_conv_conj)
qed

lemma length_strip_trailing: "length (strip_trailing cs) \<le> length cs"
  by (simp add: strip_trailing_def length_dropWhile_le [of _ "rev cs", simplified])

lemma valid_digits_range: "\<forall>d\<in>set (valid_digits cs). 0 \<le> d \<and> d < 32"
  by (induction cs) (auto simp: valid_digits_def map_filter_simps digit_of_range split: option.splits)

lemma dec_inv_init: "0 < L \<Longrightarrow> L \<le> length out \<Longrightarrow> dec_inv L ds 0 (0, 0, replicate L 0 @ drop L out)"
  by (auto simp: dec_inv_def nth_append)

lemma tr_base32_decode_spec:
  assumes n: "n \<le> length inp"
    and L: "L = (length (strip_trailing (take n inp)) * 5 mod 2 ^ SIZE_WIDTH) div 8"
    and out: "0 < L" "L \<le> length out"
  shows "\<exists>out'. tr_base32_decode inp n (Some out) ol = Some (Some out', map_option (\<lambda>_. L) ol)
     \<and> dec_final L (valid_digits (strip_trailing (take n inp))) out'
     \<and> drop L out' = drop L out \<and> length out' = length out"
proof -
  let ?n' = "length (strip_trailing (take n inp))"
  let ?ds = "valid_digits (strip_trailing (take n inp))"
  have n': "?n' \<le> n" "?n' \<le> length inp" using length_strip_trailing [of "take n inp"] n by simp_all
  have tk: "take ?n' inp = strip_trailing (take n inp)"
    using strip_trailing_prefix [of "take n inp"] n' by (simp add: min_def)
  have lp: "decode_loop inp ?n' L 0 (0, 0, replicate L 0 @ drop L out)
     = decode_digits L (drop 0 ?ds) (0, 0, replicate L 0 @ drop L out)"
    using n' by (simp add: decode_loop_list decode_list_digits tk del: decode_loop.simps)
  from decode_digits_inv [OF dec_inv_init [OF out, of ?ds] _ valid_digits_range, of ]
  obtain out' where o: "decode_digits L (drop 0 ?ds) (0, 0, replicate L 0 @ drop L out) = Some out'"
     "dec_final L ?ds out'" "drop L out' = drop L out" "length out' = length out"
    using out by auto
  have "tr_base32_decode inp n (Some out) ol = Some (Some out', map_option (\<lambda>_. L) ol)"
    using n out o(1) lp
    by (cases ol) (simp_all add: tr_base32_decode_def strip_padding_spec Let_def L [symmetric] memset_def del: decode_loop.simps)
  with o show ?thesis by blast
qed

subsection \<open>Decoding an encoding\<close>

lemma digit_of_alphabet: "d < 32 \<Longrightarrow> digit_of (base32_chars ! d) = Some (int d)"
proof -
  have "list_all (\<lambda>d. digit_of (base32_chars ! d) = Some (int d)) [0..<32]"
    by code_simp
  moreover assume "d < 32"
  ultimately show ?thesis by (simp add: list_all_iff)
qed

lemma alphabet_not_pad: "d < 32 \<Longrightarrow> base32_chars ! d \<noteq> CHR ''=''"
proof -
  have "list_all (\<lambda>d. base32_chars ! d \<noteq> CHR ''='') [0..<32]"
    by code_simp
  moreover assume "d < 32"
  ultimately show ?thesis by (simp add: list_all_iff)
qed

lemma msb_value_less: "msb_value g < 2 ^ length g"
  by (rule nat_bits_less) (simp add: bit_msb_value)

lemma length_group: 
  assumes "k < (length xs + 4) div 5"
  shows "length (groups5 xs ! k) = 5"
proof -
  from assms have "5 * k < length xs" by (simp add: lt_ceil5)
  then show ?thesis using assms by (simp add: nth_groups5)
qed

lemma nth_group:
  assumes "5 * k < 8 * length inp" "m < 5"
  shows "groups5 (bitstream inp) ! k ! m = sbit inp (5 * k + m)"
proof -
  have g: "groups5 (bitstream inp) ! k = take 5 (drop (5 * k) (bitstream inp) @ replicate 4 False)"
    using assms(1) by (simp add: nth_groups5 lt_ceil5 length_bitstream)
  show ?thesis
  proof (cases "5 * k + m < 8 * length inp")
    case True
    then have "m < 8 * length inp - 5 * k" by simp
    with True show ?thesis using assms
      by (simp add: g nth_append length_bitstream nth_bitstream sbit_def)
  next
    case False
    then have "\<not> m < 8 * length inp - 5 * k" by simp
    with False show ?thesis using assms
      by (simp add: g nth_append length_bitstream sbit_def)
  qed
qed

lemma spec_digits_less: "d \<in> set (spec_digits bs) \<Longrightarrow> d < 32"
proof -
  assume "d \<in> set (spec_digits bs)"
  then obtain k where k: "k < length (groups5 (bitstream bs))" "d = msb_value (groups5 (bitstream bs) ! k)"
    by (auto simp: spec_digits_def in_set_conv_nth)
  then have "length (groups5 (bitstream bs) ! k) = 5"
    by (intro length_group) (simp add: length_groups5)
  with k msb_value_less [of "groups5 (bitstream bs) ! k"] show ?thesis by simp
qed

lemma spec_encode_digits: "spec_base32_encode bs = map (\<lambda>d. base32_chars ! d) (spec_digits bs)"
  by (simp add: spec_base32_encode_def spec_digits_def)

lemma valid_digits_map:
  "\<forall>d\<in>set ds. d < 32 \<Longrightarrow> valid_digits (map (\<lambda>d. base32_chars ! d) ds) = map int ds"
  by (induction ds) (simp_all add: valid_digits_def map_filter_simps digit_of_alphabet)

lemma strip_trailing_id: "cs = [] \<or> last cs \<noteq> CHR ''='' \<Longrightarrow> strip_trailing cs = cs"
  by (cases cs rule: rev_cases) (auto simp: strip_trailing_def)

lemma strip_spec_encode: "strip_trailing (spec_base32_encode bs) = spec_base32_encode bs"
proof (rule strip_trailing_id, cases "spec_digits bs = []")
  case True
  then show "spec_base32_encode bs = [] \<or> last (spec_base32_encode bs) \<noteq> CHR ''=''"
    by (simp add: spec_encode_digits)
next
  case False
  then have "last (spec_digits bs) < 32" by (intro spec_digits_less [of _ bs]) simp
  with False show "spec_base32_encode bs = [] \<or> last (spec_base32_encode bs) \<noteq> CHR ''=''"
    by (simp add: spec_encode_digits last_map alphabet_not_pad)
qed

lemma dbit_spec_digits:
  assumes "q < 8 * length bs"
  shows "dbit (map int (spec_digits bs)) q = sbit bs q"
proof -
  let ?k = "q div 5"
  have k: "5 * ?k < 8 * length bs" using assms by linarith
  then have kl: "?k < length (groups5 (bitstream bs))"
    by (simp add: length_groups5 length_bitstream lt_ceil5)
  have lg: "length (groups5 (bitstream bs) ! ?k) = 5"
    using kl by (intro length_group) (simp add: length_groups5)
  have m: "q mod 5 < 5" "4 - q mod 5 < 5" "5 - 1 - (4 - q mod 5) = q mod 5" by linarith+
  have "dbit (map int (spec_digits bs)) q = bit (int (msb_value (groups5 (bitstream bs) ! ?k))) (4 - q mod 5)"
    using kl by (simp add: dbit_def spec_digits_def)
  also have "\<dots> = bit (msb_value (groups5 (bitstream bs) ! ?k)) (4 - q mod 5)"
    by (simp add: bit_of_nat_iff_bit)
  also have "\<dots> = groups5 (bitstream bs) ! ?k ! (q mod 5)"
    using m by (simp add: bit_msb_value lg)
  also have "\<dots> = sbit bs (5 * ?k + q mod 5)"
    using k m(1) by (rule nth_group)
  finally show ?thesis by simp
qed

lemma dec_final_round_trip:
  assumes "dec_final (length bs) (map int (spec_digits bs)) out" "length out = length bs"
  shows "out = bs"
proof (rule nth_equalityI)
  show "length out = length bs" by fact
next
  fix y assume y: "y < length out"
  show "out ! y = bs ! y"
  proof (rule bit_word_eqI)
    fix m assume "m < LENGTH(8)"
    then have m: "m < 8" by simp
    then have q: "8 * y + 7 - m = 8 * y + (7 - m)" "7 - m < 8" "7 - (7 - m) = m" by simp_all
    have lt: "8 * y + 7 - m < 8 * length bs" using y m assms(2) by simp
    from dbit_spec_digits [OF this] lt have "dbit (map int (spec_digits bs)) (8 * y + 7 - m) = bit (bs ! y) m"
      using y assms(2) divmod8 [OF q(2), of y] unfolding q(1) sbit_def by (simp add: q(3))
    with assms y m show "bit (out ! y) m = bit (bs ! y) m" by (simp add: dec_final_def)
  qed
qed

subsection \<open>Inserted characters\<close>

lemma valid_digits_Cons:
  "valid_digits (c # cs) = (case digit_of c of None \<Rightarrow> valid_digits cs | Some d \<Rightarrow> d # valid_digits cs)"
  by (simp add: valid_digits_def map_filter_simps split: option.splits)

lemma valid_digits_Nil: "valid_digits [] = []"
  by (simp add: valid_digits_def map_filter_simps)

lemma valid_digits_append: "valid_digits (xs @ ys) = valid_digits xs @ valid_digits ys"
  by (induction xs) (simp_all add: valid_digits_Cons valid_digits_Nil split: option.splits)

lemma valid_digits_none: "list_all (\<lambda>c. digit_of c = None) cs \<Longrightarrow> valid_digits cs = []"
  by (induction cs) (simp_all add: valid_digits_Cons valid_digits_Nil)

lemma inserted_invalid_digits: "inserted_invalid s s' \<Longrightarrow> valid_digits s' = valid_digits s"
proof (induction s s' rule: inserted_invalid.induct)
  case (1 s')
  then show ?case by (simp add: valid_digits_none valid_digits_Nil)
next
  case (2 c s)
  then show ?case by simp
next
  case (3 c s c' s')
  from 3(3) show ?case
  proof (simp only: inserted_invalid.simps, elim disjE conjE)
    assume "c = c'" "inserted_invalid s s'"
    with 3(1) have "valid_digits s' = valid_digits s" by simp
    with \<open>c = c'\<close> show ?thesis by (simp add: valid_digits_Cons split: option.splits)
  next
    assume n: "digit_of c' = None" and "inserted_invalid (c # s) s'"
    with 3(2) have "valid_digits s' = valid_digits (c # s)" by simp
    with n show ?thesis by (simp add: valid_digits_Cons [of c' s'])
  qed
qed

lemma strip_trailing_Cons:
  "strip_trailing (c # cs) = (if strip_trailing cs = [] \<and> c = CHR ''='' then [] else c # strip_trailing cs)"
proof -
  have "dropWhile P (xs @ [x]) = (if dropWhile P xs = [] \<and> P x then [] else dropWhile P xs @ [x])" for P xs and x :: char
    by (induction xs) auto
  then show ?thesis by (simp add: strip_trailing_def)
qed

lemma inserted_invalid_strip:
  "inserted_invalid s s' \<Longrightarrow> length (strip_trailing s) \<le> length (strip_trailing s')"
proof (induction s s' rule: inserted_invalid.induct)
  case (1 s')
  then show ?case by (simp add: strip_trailing_def)
next
  case (2 c s)
  then show ?case by simp
next
  case (3 c s c' s')
  from 3(3) show ?case
  proof (simp only: inserted_invalid.simps, elim disjE conjE)
    assume "c = c'" "inserted_invalid s s'"
    with 3(1) have "length (strip_trailing s) \<le> length (strip_trailing s')" by simp
    with \<open>c = c'\<close> show ?thesis by (auto simp: strip_trailing_Cons)
  next
    assume "digit_of c' = None" "inserted_invalid (c # s) s'"
    with 3(2) have "length (strip_trailing (c # s)) \<le> length (strip_trailing s')" by simp
    then show ?thesis by (auto simp: strip_trailing_Cons [of c' s'])
  qed
qed

lemma digit_of_pad: "digit_of CHR ''='' = None"
  by code_simp

lemma valid_digits_strip: "valid_digits (strip_trailing cs) = valid_digits cs"
proof -
  have "rev cs = takeWhile (\<lambda>c. c = CHR ''='') (rev cs) @ dropWhile (\<lambda>c. c = CHR ''='') (rev cs)"
    by simp
  then have "cs = strip_trailing cs @ rev (takeWhile (\<lambda>c. c = CHR ''='') (rev cs))"
    unfolding strip_trailing_def by (metis rev_append rev_rev_ident)
  moreover have "list_all (\<lambda>c. digit_of c = None) (rev (takeWhile (\<lambda>c. c = CHR ''='') (rev cs)))"
    by (auto simp: list_all_iff digit_of_pad dest: set_takeWhileD)
  ultimately show ?thesis
    by (metis valid_digits_append valid_digits_none append_Nil2)
qed

lemma dec_final_prefix:
  assumes "dec_final L ds r" "dec_final L' ds r'" "L \<le> L'"
  shows "take L r' = take L r"
proof (rule nth_equalityI)
  show "length (take L r') = length (take L r)"
    using assms by (simp add: dec_final_def)
next
  fix y assume "y < length (take L r')"
  then have y: "y < L" by simp
  have "r' ! y = r ! y"
  proof (rule bit_word_eqI)
    fix m assume "m < LENGTH(8)"
    then show "bit (r' ! y) m = bit (r ! y) m"
      using assms y by (simp add: dec_final_def)
  qed
  with y show "take L r' ! y = take L r ! y" by simp
qed

subsection \<open>Lengths, and evaluation at given inputs\<close>

lemma ceil5: "(8 * n + 4) div 5 = nat \<lceil>8 * real n / 5\<rceil>"
proof -
  have "\<lceil>8 * real n / 5\<rceil> = \<lceil>of_int (8 * int n) / of_int 5 :: real\<rceil>" by simp
  also have "\<dots> = - (- (8 * int n) div 5)" by (rule ceiling_divide_eq_div)
  also have "\<dots> = (8 * int n + 4) div 5" by linarith
  finally have "nat \<lceil>8 * real n / 5\<rceil> = nat ((8 * int n + 4) div 5)" by simp
  also have "\<dots> = (8 * n + 4) div 5" by linarith
  finally show ?thesis by simp
qed

lemma encode_loop_whole:
  assumes "(8 * length inp + 4) div 5 \<le> length out"
  shows "encode_loop inp (length inp) 0 0 out 0 =
    Some (spec_base32_encode inp @ drop ((8 * length inp + 4) div 5) out)"
  using encode_loop_spec [of 0 inp 0 out] assms by (simp del: encode_loop.simps)

lemma spec_encode_alphabet: "set (spec_base32_encode inp) \<subseteq> set base32_chars"
  by (auto simp: spec_encode_digits length_base32_chars dest!: spec_digits_less intro!: nth_mem)

lemma spec_encode_no_pad: "CHR ''='' \<notin> set (spec_base32_encode inp)"
proof
  assume "CHR ''='' \<in> set (spec_base32_encode inp)"
  then obtain d where "d \<in> set (spec_digits inp)" "base32_chars ! d = CHR ''=''"
    by (auto simp: spec_encode_digits)
  with spec_digits_less [of d inp] alphabet_not_pad [of d] show False by simp
qed

lemma floor_ceil_58: "5 * ((8 * n + 4) div 5) div 8 = n" for n :: nat
  by linarith

lemma tr_base32_decode_empty_buffer:
  "tr_base32_decode [] 0 (Some out) ol = Some (Some out, map_option (\<lambda>_. 0) ol)"
  by (cases ol) (simp_all add: tr_base32_decode_def memset_def)

lemma strip_padding_unfold:
  "strip_padding input_bytes n =
    (if n = 0 then Some 0
     else case read_at input_bytes (n - 1) of
            None \<Rightarrow> None
          | Some c \<Rightarrow> if c = CHR ''='' then strip_padding input_bytes (n - 1) else Some n)"
  by (cases n) (simp_all split: option.splits)

lemma replicate_unfold: "replicate n x = (if n = 0 then [] else x # replicate (n - 1) x)"
  by (cases n) simp_all

lemmas decode_eval = strip_padding_unfold replicate_unfold tr_base32_decode_def SIZE_WIDTH_def memset_def read_at_def write_at_def or_at_def
  decode_step_def to_size_t_def base32_lookup_def base32_lookup_size_def Let_def

section \<open>Lemmas about the key alignment\<close>

lemma be_value_zeros: "be_value (replicate n 0 @ bs) = be_value bs"
proof -
  have "foldl (\<lambda>a b. 256 * a + unat b) 0 (replicate n (0 :: u8)) = 0"
    by (induction n) simp_all
  then show ?thesis by (simp add: be_value_def)
qed

lemma tr_dh_align_key_eq:
  assumes "key_size \<le> buffer_size" "buffer_size \<le> length key_buffer"
  shows "tr_dh_align_key key_buffer key_size buffer_size =
     Some (replicate (buffer_size - key_size) 0 @ take key_size key_buffer @ drop buffer_size key_buffer)"
proof (cases "key_size < buffer_size")
  case True
  define offset where "offset = buffer_size - key_size"
  have o: "offset + key_size = buffer_size" "0 < offset" using True by (simp_all add: offset_def)
  have mv: "memmove key_buffer offset 0 key_size
      = Some (take offset key_buffer @ take key_size key_buffer @ drop buffer_size key_buffer)"
    using assms o by (simp add: memmove_def)
  have "length (take offset key_buffer) = offset" using assms o by simp
  then have ms: "memset (take offset key_buffer @ take key_size key_buffer @ drop buffer_size key_buffer) 0 0 offset
      = Some (replicate offset 0 @ take key_size key_buffer @ drop buffer_size key_buffer)"
    using assms o by (simp add: memset_def)
  show ?thesis using True assms mv ms
    by (simp add: tr_dh_align_key_def Let_def offset_def [symmetric])
next
  case False
  with assms have "key_size = buffer_size" by simp
  then show ?thesis by (simp add: tr_dh_align_key_def)
qed

section \<open>Lemmas about the bounded random integers\<close>

lemma c_rem_range: "0 < b \<Longrightarrow> - b < c_rem a b \<and> c_rem a b < b"
proof -
  assume b: "0 < b"
  then have "0 \<le> \<bar>a\<bar> mod \<bar>b\<bar>" "\<bar>a\<bar> mod \<bar>b\<bar> < b" by simp_all
  then show ?thesis by (cases "a < 0"; cases "a = 0") (simp_all add: c_rem_def)
qed

lemma c_rem_nonneg: "0 \<le> a \<Longrightarrow> 0 \<le> c_rem a b"
proof -
  assume "0 \<le> a"
  then have "0 \<le> sgn a" by (simp add: sgn_if)
  moreover have "0 \<le> \<bar>a\<bar> mod \<bar>b\<bar>" by (cases "b = 0") simp_all
  ultimately have "0 \<le> sgn a" "0 \<le> \<bar>a\<bar> mod \<bar>b\<bar>" by blast+
  then show ?thesis unfolding c_rem_def by (rule mult_nonneg_nonneg)
qed

lemma sint_eq_INT_MIN: "sint (x :: 32 word) = INT_MIN \<longleftrightarrow> x = word_of_int INT_MIN"
proof
  assume s: "sint x = INT_MIN"
  have "word_of_int (sint x) = (scast x :: 32 word)" by (simp only: scast_eq)
  with s show "x = word_of_int INT_MIN" by simp
next
  assume "x = word_of_int INT_MIN"
  then show "sint x = INT_MIN" by (simp add: INT_MIN_def)
qed

lemma tr_rand_int_weak_range:
  assumes "0 < upper_bound"
  shows "\<exists>r w'. tr_rand_int_weak srand rand t upper_bound w = Some (r, w') \<and> 0 \<le> r \<and> r < upper_bound"
proof -
  have "0 \<le> c_rem (int n) upper_bound" for n
    by (rule c_rem_nonneg) simp
  then show ?thesis
    using assms c_rem_range [OF assms]
    by (auto simp: tr_rand_int_weak_def Let_def split: prod.splits)
qed

section \<open>Lemmas about the salted tokens\<close>

lemma takeWhile_cstring: "NUL \<notin> set s \<Longrightarrow> takeWhile (\<lambda>c. c \<noteq> NUL) (s @ NUL # rest) = s"
proof -
  assume "NUL \<notin> set s"
  then have "\<And>x. x \<in> set s \<Longrightarrow> x \<noteq> NUL" by auto
  then show ?thesis by (simp add: takeWhile_append2)
qed

lemma strlen_cstring: "NUL \<notin> set s \<Longrightarrow> strlen (s @ NUL # rest) = Some (length s)"
  by (simp add: strlen_def takeWhile_cstring)

lemma strlen_SomeD:
  assumes "strlen buf = Some n"
  shows "\<exists>rest. buf = take n buf @ NUL # rest \<and> NUL \<notin> set (take n buf) \<and> n < length buf"
proof -
  from assms have nul: "NUL \<in> set buf" and n: "n = length (takeWhile (\<lambda>c. c \<noteq> NUL) buf)"
    by (auto simp: strlen_def split: if_splits)
  define t where "t = takeWhile (\<lambda>c. c \<noteq> NUL) buf"
  define d where "d = dropWhile (\<lambda>c. c \<noteq> NUL) buf"
  have b: "buf = t @ d" by (simp add: t_def d_def)
  have t: "take n buf = t" unfolding n t_def by (rule takeWhile_eq_take [symmetric])
  have "d \<noteq> []" using nul by (simp add: d_def dropWhile_eq_Nil_conv)
  then obtain x rest where dx: "d = x # rest" by (cases d) auto
  have "\<not> hd d \<noteq> NUL" using \<open>d \<noteq> []\<close> unfolding d_def by (rule hd_dropWhile)
  with dx have "buf = t @ NUL # rest" using b by simp
  moreover have "NUL \<notin> set t" unfolding t_def by (auto dest: set_takeWhileD)
  moreover have "n < length buf"
  proof -
    have "length buf = length t + length d" by (subst b) simp
    with dx n show ?thesis by (simp add: t_def)
  qed
  ultimately show ?thesis unfolding t by blast
qed

lemma to_int_small: "n < 2 ^ 31 \<Longrightarrow> to_int n = int n"
proof -
  assume n: "n < 2 ^ 31"
  have "(word_of_nat n :: 32 word) = word_of_int (int n)" by simp
  then have "sint (word_of_nat n :: 32 word) = signed_take_bit 31 (int n)"
    by (simp only: sint_sbintrunc') simp
  also have "\<dots> = int n"
    using n by (intro signed_take_bit_int_eq_self) simp_all
  finally show ?thesis by (simp add: to_int_def)
qed

lemma to_size_t_nat: "n < 2 ^ 64 \<Longrightarrow> to_size_t (int n) = n"
  unfolding to_size_t_def SIZE_WIDTH_def by simp

lemma tr_sha1_update_take:
  assumes "n \<le> length data" "n < 2 ^ 31"
  shows "tr_sha1_update handle data (to_int n) = Some (handle @ take n data)"
proof -
  have "n < 2 ^ 64" using assms(2) by (rule less_trans) simp
  then show ?thesis
    using assms by (simp add: tr_sha1_update_def to_int_small to_size_t_nat)
qed

lemma tr_sha1_two_spans:
  assumes "n \<le> length data" "n < 2 ^ 31" "k \<le> length salt" "k < 2 ^ 31"
  shows "tr_sha1 sha1 hash data (to_int n) [(salt, to_int k)] =
    (case sha1 (take n data @ take k salt) of
       None \<Rightarrow> Some (False, hash)
     | Some digest \<Rightarrow> if length digest = SHA_DIGEST_LENGTH then Some (True, digest) else None)"
proof -
  have 1: "tr_sha1_update [] data (to_int n) = Some (take n data)"
    using tr_sha1_update_take [OF assms(1,2), of "[]"] by simp
  have 2: "tr_sha1_rest (take n data) [(salt, to_int k)] = Some (take n data @ take k salt)"
    using tr_sha1_update_take [OF assms(3,4), of "take n data"] assms(4)
    by (simp add: to_int_small)
  show ?thesis by (simp only: tr_sha1_def 1 2 option.case)
qed

lemma length_hex_string: "length (hex_string bs) = 2 * length bs"
  by (induction bs) (simp_all add: hex_string_def hex_of_byte_def)

lemma hex_digit_cases:
  "k < 16 \<Longrightarrow> hex_chars ! k \<in> set hex_chars \<and> hex_chars ! k \<noteq> NUL"
proof -
  have "list_all (\<lambda>k. hex_chars ! k \<in> set hex_chars \<and> hex_chars ! k \<noteq> NUL) [0..<16]"
    by code_simp
  moreover assume "k < 16"
  ultimately show ?thesis by (simp add: list_all_iff)
qed

lemma hex_digit_inj:
  "j < 16 \<Longrightarrow> k < 16 \<Longrightarrow> hex_chars ! j = hex_chars ! k \<Longrightarrow> j = k"
proof -
  have "distinct hex_chars" by (simp add: hex_chars_def)
  moreover have "length hex_chars = 16" by (simp add: hex_chars_def)
  ultimately show "j < 16 \<Longrightarrow> k < 16 \<Longrightarrow> hex_chars ! j = hex_chars ! k \<Longrightarrow> j = k"
    by (simp add: nth_eq_iff_index_eq)
qed

lemma hex_of_byte_inj: "hex_of_byte a = hex_of_byte b \<Longrightarrow> a = b"
proof -
  assume "hex_of_byte a = hex_of_byte b"
  then have "hex_chars ! (unat a div 16) = hex_chars ! (unat b div 16)"
    "hex_chars ! (unat a mod 16) = hex_chars ! (unat b mod 16)"
    by (simp_all add: hex_of_byte_def)
  moreover have "unat a div 16 < 16" "unat b div 16 < 16"
    using unsigned_less [of a, where 'a = nat] unsigned_less [of b, where 'a = nat] by simp_all
  ultimately have "unat a div 16 = unat b div 16" "unat a mod 16 = unat b mod 16"
    by (simp_all add: hex_digit_inj)
  then have "unat a = unat b" by (metis div_mult_mod_eq)
  then show ?thesis by (rule word_unat_eq_iff [THEN iffD2])
qed

lemma hex_string_inj: "length a = length b \<Longrightarrow> hex_string a = hex_string b \<Longrightarrow> a = b"
proof (induction a b rule: list_induct2)
  case Nil
  then show ?case by simp
next
  case (Cons x xs y ys)
  from Cons(3) have "hex_of_byte x @ hex_string xs = hex_of_byte y @ hex_string ys"
    by (simp add: hex_string_def)
  moreover have "length (hex_of_byte x) = length (hex_of_byte y)" by (simp add: hex_of_byte_def)
  ultimately have "hex_of_byte x = hex_of_byte y" "hex_string xs = hex_string ys" by simp_all
  with Cons(2) hex_of_byte_inj show ?case by simp
qed

lemma hex_string_chars: "set (hex_string bs) \<subseteq> set hex_chars" and hex_string_no_NUL: "NUL \<notin> set (hex_string bs)"
proof -
  have d: "unat b div 16 < 16" for b :: u8
    using unsigned_less [of b, where 'a = nat] by simp
  have "set (hex_of_byte b) \<subseteq> set hex_chars \<and> NUL \<notin> set (hex_of_byte b)" for b
    using hex_digit_cases [OF d [of b]] hex_digit_cases [of "unat b mod 16"]
    by (auto simp: hex_of_byte_def)
  then show "set (hex_string bs) \<subseteq> set hex_chars" "NUL \<notin> set (hex_string bs)"
    by (auto simp: hex_string_def)
qed

lemma tr_sha1_to_hex_eq:
  "SHA_DIGEST_LENGTH \<le> length sha \<Longrightarrow> tr_sha1_to_hex sha = Some (hex_string (take SHA_DIGEST_LENGTH sha) @ [NUL])"
  by (simp add: tr_sha1_to_hex_def read_range_def hex_string_def)

lemma salter_chars: "k < 64 \<Longrightarrow> salter ! k \<in> set salter \<and> salter ! k \<noteq> NUL"
proof -
  have "list_all (\<lambda>k. salter ! k \<in> set salter \<and> salter ! k \<noteq> NUL) [0..<64]"
    by code_simp
  moreover assume "k < 64"
  ultimately show ?thesis by (simp add: list_all_iff)
qed

lemma length_salt_of: "length (salt_of salt0) = 8"
  by (simp add: salt_of_def)

lemma salt_of_chars: "set (salt_of salt0) \<subseteq> set salter" and salt_of_no_NUL: "NUL \<notin> set (salt_of salt0)"
proof -
  have "salter ! (unat (salt0 i) mod 64) \<in> set salter \<and> salter ! (unat (salt0 i) mod 64) \<noteq> NUL" for i
    by (rule salter_chars) simp
  then have "\<forall>c\<in>set (salt_of salt0). c \<in> set salter \<and> c \<noteq> NUL"
    unfolding salt_of_def by (simp only: set_map ball_simps) blast
  then show "set (salt_of salt0) \<subseteq> set salter" "NUL \<notin> set (salt_of salt0)"
    by blast+
qed

lemma length1_obtain: "length xs = Suc 0 \<Longrightarrow> \<exists>y. xs = [y]"
  by (cases xs) auto

lemma token_writes:
  assumes buf: "length buf = 2 * SHA_DIGEST_LENGTH + length salt + 2"
    and hex: "length hex = 2 * SHA_DIGEST_LENGTH"
  shows "\<exists>b1 b2 b3. write_range buf 1 (hex @ [NUL]) = Some b1
      \<and> write_range b1 (1 + 2 * SHA_DIGEST_LENGTH) salt = Some b2
      \<and> write_at b2 (1 + 2 * SHA_DIGEST_LENGTH + length salt) NUL = Some b3
      \<and> write_at b3 0 c = Some (c # hex @ salt @ [NUL])"
proof -
  let ?s = "length salt"
  from buf hex have lb: "length buf = 42 + ?s" and lh: "length hex = 40"
    by (simp_all add: SHA_DIGEST_LENGTH_def)
  define b1 where "b1 = take 1 buf @ (hex @ [NUL]) @ drop (1 + length (hex @ [NUL])) buf"
  have w1: "write_range buf 1 (hex @ [NUL]) = Some b1"
    using lb lh by (simp add: write_range_def b1_def)
  have l1: "length b1 = 42 + ?s" using lb lh by (simp add: b1_def)
  have t1: "take 41 b1 = take 1 buf @ hex" using lb lh by (simp add: b1_def)
  define b2 where "b2 = take 41 b1 @ salt @ drop (41 + ?s) b1"
  have w2: "write_range b1 (1 + 2 * SHA_DIGEST_LENGTH) salt = Some b2"
    using l1 by (simp add: write_range_def b2_def SHA_DIGEST_LENGTH_def)
  have "length (drop (41 + ?s) b1) = Suc 0" using l1 by simp
  then obtain y where y: "drop (41 + ?s) b1 = [y]" using length1_obtain by blast
  have b2: "b2 = (take 1 buf @ hex @ salt) @ [y]" by (simp add: b2_def t1 y)
  have l2: "length (take 1 buf @ hex @ salt) = 41 + ?s" using lb lh by simp
  define b3 where "b3 = (take 1 buf @ hex @ salt) @ [NUL]"
  have "b2[41 + ?s := NUL] = b3"
    unfolding b2 b3_def using l2 by (metis list_update_length)
  moreover have "41 + ?s < length b2" unfolding b2 using l2 by simp
  ultimately have w3: "write_at b2 (1 + 2 * SHA_DIGEST_LENGTH + ?s) NUL = Some b3"
    by (simp add: write_at_def SHA_DIGEST_LENGTH_def)
  have "length (take 1 buf) = Suc 0" using lb by simp
  then obtain x where x: "take 1 buf = [x]" using length1_obtain by blast
  have w4: "write_at b3 0 c = Some (c # hex @ salt @ [NUL])"
    unfolding b3_def x by (simp add: write_at_def)
  from w1 w2 w3 w4 show ?thesis by blast
qed

lemma tr_sha1_digest_or:
  assumes "n \<le> length data" "n < 2 ^ 31" "k \<le> length salt" "k < 2 ^ 31"
    and "\<forall>d. sha1 (take n data @ take k salt) = Some d \<longrightarrow> length d = SHA_DIGEST_LENGTH"
  shows "\<exists>ok. tr_sha1 sha1 hash data (to_int n) [(salt, to_int k)]
     = Some (ok, digest_or sha1 (take n data @ take k salt) hash)"
  using assms(5)
  by (cases "sha1 (take n data @ take k salt)")
     (auto simp add: tr_sha1_two_spans [OF assms(1-4)] digest_or_def)

lemma tr_ssha1_eq:
  assumes p: "strlen plain_text = Some n" "n < 2 ^ 31"
    and ok: "\<forall>d. sha1 (take n (bytes_of plain_text) @ bytes_of (salt_of salt0)) = Some d
               \<longrightarrow> length d = SHA_DIGEST_LENGTH"
    and junk: "junk = map sha0 [0..<SHA_DIGEST_LENGTH]"
  shows "tr_ssha1 sha1 salt0 sha0 buf0 plain_text =
    Some (CHR ''{'' # hex_string (take SHA_DIGEST_LENGTH
            (digest_or sha1 (take n (bytes_of plain_text) @ bytes_of (salt_of salt0)) junk))
          @ salt_of salt0 @ [NUL])"
proof -
  let ?salt = "salt_of salt0"
  let ?msg = "take n (bytes_of plain_text) @ bytes_of ?salt"
  let ?d = "digest_or sha1 ?msg junk"
  let ?hex = "hex_string (take SHA_DIGEST_LENGTH ?d)"
  from strlen_SomeD [OF p(1)] have n: "n \<le> length (bytes_of plain_text)"
    by (auto simp: bytes_of_def)
  have k: "8 \<le> length (bytes_of ?salt)" "(8::nat) < 2 ^ 31" "take 8 (bytes_of ?salt) = bytes_of ?salt"
    by (simp_all add: bytes_of_def length_salt_of)
  from tr_sha1_digest_or [OF n p(2) k(1,2), of sha1 junk] ok obtain okb where
    sha: "tr_sha1 sha1 junk (bytes_of plain_text) (to_int n) [(bytes_of ?salt, to_int 8)] = Some (okb, ?d)"
    unfolding k(3) by blast
  have ld: "length ?d = SHA_DIGEST_LENGTH"
    using ok by (cases "sha1 ?msg") (simp_all add: digest_or_def junk)
  then have hx: "tr_sha1_to_hex ?d = Some (?hex @ [NUL])"
    by (simp add: tr_sha1_to_hex_eq)
  have lh: "length ?hex = 2 * SHA_DIGEST_LENGTH" using ld by (simp add: length_hex_string)
  define buf where "buf = map buf0 [0..<2 * SHA_DIGEST_LENGTH + 8 + 2]"
  have lb: "length buf = 2 * SHA_DIGEST_LENGTH + length ?salt + 2"
    by (simp add: buf_def length_salt_of)
  from token_writes [OF lb lh, of "CHR ''{''"] obtain b1 b2 b3 where
    w: "write_range buf 1 (?hex @ [NUL]) = Some b1"
       "write_range b1 (1 + 2 * SHA_DIGEST_LENGTH) ?salt = Some b2"
       "write_at b2 (1 + 2 * SHA_DIGEST_LENGTH + 8) NUL = Some b3"
       "write_at b3 0 CHR ''{'' = Some (CHR ''{'' # ?hex @ ?salt @ [NUL])"
    by (auto simp: length_salt_of)
  have "NUL \<notin> set (CHR ''{'' # ?hex @ ?salt)"
    using hex_string_no_NUL salt_of_no_NUL by (simp add: NUL_def)
  from strlen_cstring [OF this, of "[]"]
  have dup: "tr_strdup (CHR ''{'' # ?hex @ ?salt @ [NUL]) = Some (CHR ''{'' # ?hex @ ?salt @ [NUL])"
    by (simp add: tr_strdup_def)
  show ?thesis
    unfolding tr_ssha1_def Let_def salt_of_def [symmetric] junk [symmetric] buf_def [symmetric]
    by (simp only: p(1) sha hx w dup option.case prod.case)
qed

lemma tr_ssha1_matches_eq:
  assumes t: "strlen ssha1 = Some len" "2 * SHA_DIGEST_LENGTH + 1 \<le> len" "len < 2 ^ 31"
    and p: "strlen plain_text = Some n" "n < 2 ^ 31"
    and salt: "salt = drop (2 * SHA_DIGEST_LENGTH + 1) (take len ssha1)"
    and ok: "\<forall>d. sha1 (take n (bytes_of plain_text) @ bytes_of salt) = Some d
               \<longrightarrow> length d = SHA_DIGEST_LENGTH"
    and junk: "junk = map buf0 [0..<SHA_DIGEST_LENGTH]"
  shows "tr_ssha1_matches sha1 buf0 heap0 ssha1 plain_text =
    Some (take len ssha1 = CHR ''{'' # hex_string (take SHA_DIGEST_LENGTH
            (digest_or sha1 (take n (bytes_of plain_text) @ bytes_of salt) junk)) @ salt)"
proof -
  let ?msg = "take n (bytes_of plain_text) @ bytes_of salt"
  let ?d = "digest_or sha1 ?msg junk"
  let ?hex = "hex_string (take SHA_DIGEST_LENGTH ?d)"
  define saltlen where "saltlen = len - 41"
  from t(2) have len41: "41 \<le> len" by (simp add: SHA_DIGEST_LENGTH_def)
  from strlen_SomeD [OF t(1)] obtain rest where
    tk: "ssha1 = take len ssha1 @ NUL # rest" "NUL \<notin> set (take len ssha1)" "len < length ssha1"
    by blast
  have ls: "length salt = saltlen" using tk(3) len41 by (simp add: salt saltlen_def SHA_DIGEST_LENGTH_def)
  have not_short: "\<not> len < 2 * SHA_DIGEST_LENGTH - 1" using len41 by (simp add: SHA_DIGEST_LENGTH_def)
  have "int len - 2 * int SHA_DIGEST_LENGTH - 1 = int saltlen"
    using len41 by (simp add: saltlen_def SHA_DIGEST_LENGTH_def)
  moreover have s64: "saltlen < 2 ^ 64" "saltlen < 2 ^ 31"
    using t(3) by (simp_all add: saltlen_def)
  ultimately have sl: "to_size_t (int len - 2 * int SHA_DIGEST_LENGTH - 1) = saltlen"
    by (simp add: to_size_t_nat)
  have rd: "read_range ssha1 (2 * SHA_DIGEST_LENGTH + 1) saltlen = Some salt"
  proof -
    have "take saltlen (drop 41 ssha1) = drop 41 (take len ssha1)"
      using len41 by (simp add: saltlen_def drop_take)
    then show ?thesis using tk(3) len41 by (simp add: read_range_def salt saltlen_def SHA_DIGEST_LENGTH_def)
  qed
  have sz: "(2 * SHA_DIGEST_LENGTH + saltlen + 2) mod 2 ^ SIZE_WIDTH = 2 * SHA_DIGEST_LENGTH + length salt + 2"
    using s64(2) by (simp add: SIZE_WIDTH_def SHA_DIGEST_LENGTH_def ls)
  define my where "my = map heap0 [0..<2 * SHA_DIGEST_LENGTH + length salt + 2]"
  have lmy: "length my = 2 * SHA_DIGEST_LENGTH + length salt + 2" by (simp add: my_def)
  from strlen_SomeD [OF p(1)] have n: "n \<le> length (bytes_of plain_text)"
    by (auto simp: bytes_of_def)
  have k: "saltlen \<le> length (bytes_of salt)" "take saltlen (bytes_of salt) = bytes_of salt"
    by (simp_all add: bytes_of_def ls)
  from tr_sha1_digest_or [OF n p(2) k(1) s64(2), of sha1 junk] ok obtain okb where
    sha: "tr_sha1 sha1 junk (bytes_of plain_text) (to_int n) [(bytes_of salt, to_int saltlen)] = Some (okb, ?d)"
    unfolding k(2) by blast
  have ld: "length ?d = SHA_DIGEST_LENGTH"
    using ok by (cases "sha1 ?msg") (simp_all add: digest_or_def junk)
  then have hx: "tr_sha1_to_hex ?d = Some (?hex @ [NUL])"
    by (simp add: tr_sha1_to_hex_eq)
  have lh: "length ?hex = 2 * SHA_DIGEST_LENGTH" using ld by (simp add: length_hex_string)
  from token_writes [OF lmy lh, of "CHR ''{''"] obtain b1 b2 b3 where
    w: "write_range my 1 (?hex @ [NUL]) = Some b1"
       "write_range b1 (1 + 2 * SHA_DIGEST_LENGTH) salt = Some b2"
       "write_at b2 (1 + 2 * SHA_DIGEST_LENGTH + saltlen) NUL = Some b3"
       "write_at b3 0 CHR ''{'' = Some (CHR ''{'' # ?hex @ salt @ [NUL])"
    by (auto simp: ls)
  have "set salt \<subseteq> set (take len ssha1)" unfolding salt by (rule set_drop_subset)
  with tk(2) have "NUL \<notin> set (CHR ''{'' # ?hex @ salt)"
    using hex_string_no_NUL by (auto simp: NUL_def)
  then have tw: "takeWhile (\<lambda>c. c \<noteq> NUL) (CHR ''{'' # ?hex @ salt @ [NUL]) = CHR ''{'' # ?hex @ salt"
    using takeWhile_cstring [of "CHR ''{'' # ?hex @ salt" "[]"] by simp
  have tw2: "takeWhile (\<lambda>c. c \<noteq> NUL) ssha1 = take len ssha1"
    using takeWhile_cstring [OF tk(2), of rest] tk(1) by simp
  have "NUL \<in> set ssha1" using tk(1) by (metis in_set_conv_decomp)
  then have cmp: "strcmp_eq0 ssha1 (CHR ''{'' # ?hex @ salt @ [NUL])
      = Some (take len ssha1 = CHR ''{'' # ?hex @ salt)"
    unfolding strcmp_eq0_def tw tw2 by simp
  show ?thesis
    unfolding tr_ssha1_matches_def Let_def
    by (simp only: t(1) not_short sl rd sz junk [symmetric] my_def [symmetric] p(1) sha hx w cmp
        option.case prod.case if_False)
qed

lemma tr_ssha1_matches_wraps:
  assumes "strlen ssha1 = Some len" "len = 39 \<or> len = 40" "length ssha1 < 2 ^ 64 - 2"
  shows "tr_ssha1_matches sha1 buf0 heap0 ssha1 plain_text = None"
proof -
  let ?saltlen = "to_size_t (int len - 2 * int SHA_DIGEST_LENGTH - 1)"
  have "?saltlen = 2 ^ 64 - 2 \<or> ?saltlen = 2 ^ 64 - 1"
    using assms(2) by (auto simp: to_size_t_def SIZE_WIDTH_def SHA_DIGEST_LENGTH_def)
  then have "\<not> 2 * SHA_DIGEST_LENGTH + 1 + ?saltlen \<le> length ssha1"
    using assms(3) by auto
  then have "read_range ssha1 (2 * SHA_DIGEST_LENGTH + 1) ?saltlen = None"
    by (simp add: read_range_def)
  moreover have "\<not> len < 2 * SHA_DIGEST_LENGTH - 1"
    using assms(2) by (auto simp: SHA_DIGEST_LENGTH_def)
  ultimately show ?thesis
    unfolding tr_ssha1_matches_def Let_def
    by (simp only: assms(1) option.case if_False)
qed

lemma tr_ssha1_matches_short:
  assumes "strlen ssha1 = Some len" "len < 39"
  shows "tr_ssha1_matches sha1 buf0 heap0 ssha1 plain_text = Some False"
  using assms by (simp add: tr_ssha1_matches_def SHA_DIGEST_LENGTH_def)

section \<open>Claims about the base-32 codec\<close>

text \<open>
  Claim C6. For every input of \<open>n\<close> bytes and every output buffer that holds at least
  \<open>\<lceil>8 * n / 5\<rceil>\<close> bytes, \<open>tr_base32_encode\<close> returns without an access outside
  its buffers (the result is not \<open>None\<close>, although every read of the input is checked
  against the \<open>n\<close> bytes), and it leaves in the output buffer exactly the
  \<open>\<lceil>8 * n / 5\<rceil>\<close> symbols of \<open>spec_base32_encode\<close>: the input taken as a stream
  of bits, most significant bit first, cut into groups of five, the last group filled with
  zero bits, each group mapped through the alphabet. The rest of the buffer is unchanged.
  Every symbol is one of the 32 characters of the alphabet, and none is the padding
  character \<open>=\<close>.
\<close>

theorem tr_base32_encode_bitstream:
  assumes "(8 * length input + 4) div 5 \<le> length out"
  shows "map_option fst (tr_base32_encode input (length input) (Some out) ol) =
           Some (Some (spec_base32_encode input @ drop ((8 * length input + 4) div 5) out))
       \<and> length (spec_base32_encode input) = nat \<lceil>8 * real (length input) / 5\<rceil>
       \<and> set (spec_base32_encode input) \<subseteq> set ''ABCDEFGHIJKLMNOPQRSTUVWXYZ234567''
       \<and> CHR ''='' \<notin> set (spec_base32_encode input)"
proof -
  have "map_option fst (tr_base32_encode input (length input) (Some out) ol) =
           Some (Some (spec_base32_encode input @ drop ((8 * length input + 4) div 5) out))"
    using encode_loop_whole [OF assms] by (simp add: tr_base32_encode_def Let_def del: encode_loop.simps)
  moreover have "length (spec_base32_encode input) = nat \<lceil>8 * real (length input) / 5\<rceil>"
    by (simp only: length_spec_base32_encode ceil5)
  moreover have "set (spec_base32_encode input) \<subseteq> set ''ABCDEFGHIJKLMNOPQRSTUVWXYZ234567''"
    using spec_encode_alphabet [of input] by (simp only: base32_chars_def)
  ultimately show ?thesis using spec_encode_no_pad by blast
qed

theorem tr_base32_encode_bitstream_witness:
  "(8 * length [0xFF, 0x00 :: u8] + 4) div 5 \<le> length ''.....''
   \<and> map_option fst (tr_base32_encode [0xFF, 0x00] (length [0xFF, 0x00 :: u8]) (Some ''.....'') None)
       = Some (Some ''74AA.'')
   \<and> spec_base32_encode [0xFF, 0x00] = ''74AA''"
proof -
  have s: "spec_base32_encode [0xFF, 0x00] = ''74AA''" by code_simp
  have h: "(8 * length [0xFF, 0x00 :: u8] + 4) div 5 \<le> length ''.....''" by simp
  have d: "spec_base32_encode [0xFF, 0x00] @ drop ((8 * length [0xFF, 0x00 :: u8] + 4) div 5) ''.....'' = ''74AA.''"
    unfolding s by simp
  from tr_base32_encode_bitstream [OF h, of None] have
    "map_option fst (tr_base32_encode [0xFF, 0x00] (length [0xFF, 0x00 :: u8]) (Some ''.....'') None)
       = Some (Some ''74AA.'')"
    unfolding d by (rule conjunct1)
  with h s show ?thesis by blast
qed

text \<open>
  Claim C1. Decoding the encoding of a byte string gives the byte string back. For every
  \<open>b\<close> of fewer than \<open>2 ^ 61\<close> bytes (so that \<open>8 * n + 4\<close> fits the 64-bit
  \<open>size_t\<close>; the empty string is included), \<open>tr_base32_encode\<close> fills a buffer of
  \<open>\<lceil>8 * n / 5\<rceil>\<close> bytes with the symbols \<open>spec_base32_encode b\<close> and reports their
  number, and \<open>tr_base32_decode\<close> of these symbols fills a buffer of \<open>n\<close> bytes with
  \<open>b\<close> and reports \<open>n = \<lfloor>5 * \<lceil>8 * n / 5\<rceil> / 8\<rfloor>\<close> bytes: the zero bits that filled
  the last group fall outside the \<open>n\<close> bytes.
\<close>

theorem base32_round_trip:
  assumes "length b < 2 ^ 61"
    and "length syms = (8 * length b + 4) div 5"
    and "length out = length b"
  shows "tr_base32_encode b (length b) (Some syms) (Some l) =
           Some (Some (spec_base32_encode b), Some (length (spec_base32_encode b)))
       \<and> tr_base32_decode (spec_base32_encode b) (length (spec_base32_encode b)) (Some out) (Some l') =
           Some (Some b, Some (length b))
       \<and> 5 * length (spec_base32_encode b) div 8 = length b"
proof -
  let ?enc = "spec_base32_encode b"
  let ?n = "length b"
  have big: "?n * 8 + 4 < 2 ^ SIZE_WIDTH" using assms(1) by (simp add: SIZE_WIDTH_def)
  have le: "length ?enc = (8 * ?n + 4) div 5" by (rule length_spec_base32_encode)
  have enc: "tr_base32_encode b ?n (Some syms) (Some l) = Some (Some ?enc, Some (length ?enc))"
    using encode_loop_whole [of b syms] assms(2) big
    by (simp add: tr_base32_encode_def Let_def le mult.commute del: encode_loop.simps)
  have l5: "length ?enc * 5 < 2 ^ SIZE_WIDTH" using big unfolding le by linarith
  have L: "(length (strip_trailing (take (length ?enc) ?enc)) * 5 mod 2 ^ SIZE_WIDTH) div 8 = ?n"
    using l5 floor_ceil_58 [of ?n] by (simp add: strip_spec_encode le mult.commute)
  have dec: "tr_base32_decode ?enc (length ?enc) (Some out) (Some l') = Some (Some b, Some ?n)"
  proof (cases "?n = 0")
    case True
    then have "b = []" "out = []" "?enc = []" using assms(3) le by simp_all
    then show ?thesis by (simp add: tr_base32_decode_empty_buffer)
  next
    case False
    have "\<exists>out'. tr_base32_decode ?enc (length ?enc) (Some out) (Some l') = Some (Some out', map_option (\<lambda>_. ?n) (Some l'))
     \<and> dec_final ?n (valid_digits (strip_trailing (take (length ?enc) ?enc))) out'
     \<and> drop ?n out' = drop ?n out \<and> length out' = length out"
      using False assms(3) L by (intro tr_base32_decode_spec) simp_all
    then obtain out' where o: "tr_base32_decode ?enc (length ?enc) (Some out) (Some l') = Some (Some out', Some ?n)"
      "dec_final ?n (valid_digits ?enc) out'" "length out' = ?n"
      using assms(3) by (auto simp: strip_spec_encode)
    have "valid_digits ?enc = map int (spec_digits b)"
      unfolding spec_encode_digits by (rule valid_digits_map) (simp add: spec_digits_less)
    with o have "out' = b" by (intro dec_final_round_trip) simp_all
    with o show ?thesis by simp
  qed
  from enc dec floor_ceil_58 [of ?n] show ?thesis by (simp add: le)
qed

theorem base32_round_trip_witness:
  "length [0xDE, 0xAD, 0xBE :: u8] < 2 ^ 61
   \<and> spec_base32_encode [0xDE, 0xAD, 0xBE] = ''32W34''
   \<and> tr_base32_decode ''32W34'' (length ''32W34'') (Some [0, 0, 0]) (Some 0)
       = Some (Some [0xDE, 0xAD, 0xBE], Some (length [0xDE, 0xAD, 0xBE :: u8]))"
proof -
  have s: "spec_base32_encode [0xDE, 0xAD, 0xBE] = ''32W34''" by code_simp
  have h: "length [0xDE, 0xAD, 0xBE :: u8] < 2 ^ 61" by simp
  have h2: "length ''.....'' = (8 * length [0xDE, 0xAD, 0xBE :: u8] + 4) div 5" by simp
  have h3: "length [0, 0, 0 :: u8] = length [0xDE, 0xAD, 0xBE :: u8]" by simp
  note r = base32_round_trip [OF h h2 h3, of 0 0, unfolded s]
  from r have "tr_base32_decode ''32W34'' (length ''32W34'') (Some [0, 0, 0]) (Some 0)
       = Some (Some [0xDE, 0xAD, 0xBE], Some (length [0xDE, 0xAD, 0xBE :: u8]))"
    by (rule conjunct1 [OF conjunct2])
  with s h show ?thesis by blast
qed

text \<open>
  Claim C7, at the input where the code departs from it. The one-symbol input \<open>B\<close> has
  the output length \<open>\<lfloor>5 * 1 / 8\<rfloor> = 0\<close>, and \<open>tr_base32_decode\<close> reports 0; but the
  loop stores \<open>1 << 3\<close> into \<open>output_bytes[0]\<close>, a byte past the reported length. With
  an output buffer of one byte that byte changes from 0 to 8; with a buffer of exactly
  the reported size the store is outside the buffer.
\<close>

theorem tr_base32_decode_writes_past_length:
  "tr_base32_decode ''B'' 1 (Some [0]) (Some 0) = Some (Some [8], Some 0)
   \<and> tr_base32_decode ''B'' 1 (Some []) (Some 0) = None"
  by (simp add: decode_eval)

text \<open>
  Claim C8 fails as stated: the reported length counts the inserted character. For
  \<open>AB%CD\<close> the decoder reports 3 bytes and writes \<open>00 44 30\<close>; for \<open>ABCD\<close> it reports
  2 bytes and writes \<open>00 44\<close>, leaving the third byte of the buffer as it was.
\<close>

theorem base32_decode_inserted_char_counterexample:
  "tr_base32_decode ''AB%CD'' 5 (Some [0xAA, 0xAA, 0xAA]) (Some 0) = Some (Some [0x00, 0x44, 0x30], Some 3)
   \<and> tr_base32_decode ''ABCD'' 4 (Some [0xAA, 0xAA, 0xAA]) (Some 0) = Some (Some [0x00, 0x44, 0xAA], Some 2)
   \<and> inserted_invalid ''ABCD'' ''AB%CD''"
  by (simp add: decode_eval digit_of_def)

text \<open>
  Claim C8, amended. Let \<open>s'\<close> be \<open>s\<close> with characters inserted that the lookup table
  does not recognise (\<open>inserted_invalid s s'\<close>), with \<open>5 * length s' < 2 ^ 64\<close>, and
  let the length \<open>L = \<lfloor>5 * length (strip_trailing s) / 8\<rfloor>\<close> reported for \<open>s\<close> be
  positive. Then the decoder skips the inserted characters: it reports
  \<open>L' = \<lfloor>5 * length (strip_trailing s') / 8\<rfloor> \<ge> L\<close> for \<open>s'\<close>, and the first \<open>L\<close>
  bytes decoded from \<open>s'\<close> are the \<open>L\<close> bytes decoded from \<open>s\<close>.
\<close>

theorem base32_decode_inserted_chars:
  assumes ins: "inserted_invalid s s'"
    and size: "5 * length s' < 2 ^ 64"
    and L: "L = 5 * length (strip_trailing s) div 8" "L' = 5 * length (strip_trailing s') div 8"
    and buf: "0 < L" "L \<le> length out" "L' \<le> length out'"
  shows "\<exists>r r'. tr_base32_decode s (length s) (Some out) (Some l) = Some (Some r, Some L)
             \<and> tr_base32_decode s' (length s') (Some out') (Some l') = Some (Some r', Some L')
             \<and> L \<le> L' \<and> take L r' = take L r"
proof -
  have le: "length (strip_trailing s) \<le> length (strip_trailing s')"
    using ins by (rule inserted_invalid_strip)
  then have LL: "L \<le> L'" unfolding L by linarith
  have s'5: "length (strip_trailing s') * 5 < 2 ^ SIZE_WIDTH"
    using size length_strip_trailing [of s'] by (simp add: SIZE_WIDTH_def)
  with le have s5: "length (strip_trailing s) * 5 < 2 ^ SIZE_WIDTH" by linarith
  have 1: "L = (length (strip_trailing (take (length s) s)) * 5 mod 2 ^ SIZE_WIDTH) div 8"
    using s5 by (simp add: L mult.commute)
  have 2: "L' = (length (strip_trailing (take (length s') s')) * 5 mod 2 ^ SIZE_WIDTH) div 8"
    using s'5 by (simp add: L mult.commute)
  from tr_base32_decode_spec [OF _ 1 buf(1,2), of "Some l"] obtain r where
    r: "tr_base32_decode s (length s) (Some out) (Some l) = Some (Some r, Some L)"
       "dec_final L (valid_digits s) r"
    by (auto simp: valid_digits_strip)
  have "0 < L'" using LL buf(1) by simp
  from tr_base32_decode_spec [OF _ 2 this buf(3), of "Some l'"] obtain r' where
    r': "tr_base32_decode s' (length s') (Some out') (Some l') = Some (Some r', Some L')"
       "dec_final L' (valid_digits s') r'"
    by (auto simp: valid_digits_strip)
  from r'(2) have "dec_final L' (valid_digits s) r'"
    by (simp only: inserted_invalid_digits [OF ins])
  from dec_final_prefix [OF r(2) this LL] r(1) r'(1) LL show ?thesis by blast
qed

theorem base32_decode_inserted_chars_witness:
  "inserted_invalid ''ABCD'' ''AB%CD'' \<and> 5 * length ''AB%CD'' < (2::nat) ^ 64
   \<and> (\<exists>r r'. tr_base32_decode ''ABCD'' (length ''ABCD'') (Some [0xAA, 0xAA]) (Some 0) = Some (Some r, Some 2)
             \<and> tr_base32_decode ''AB%CD'' (length ''AB%CD'') (Some [0xAA, 0xAA, 0xAA]) (Some 0) = Some (Some r', Some 3)
             \<and> (2::nat) \<le> 3 \<and> take 2 r' = take 2 r)"
proof -
  have i: "inserted_invalid ''ABCD'' ''AB%CD''" by (simp add: decode_eval digit_of_def)
  have h: "5 * length ''AB%CD'' < (2::nat) ^ 64" by simp
  have L: "2 = 5 * length (strip_trailing ''ABCD'') div 8" "3 = 5 * length (strip_trailing ''AB%CD'') div 8"
    by (simp_all add: strip_trailing_def)
  have b: "(0::nat) < 2" "2 \<le> length [0xAA, 0xAA :: u8]" "3 \<le> length [0xAA, 0xAA, 0xAA :: u8]" by simp_all
  from base32_decode_inserted_chars [OF i h L b, of 0 0] i h show ?thesis by blast
qed

text \<open>
  Claim C10. With a \<open>NULL\<close> output pointer both functions only compute the length:
  the output stays \<open>NULL\<close>, nothing is written, and the cell behind \<open>output_length\<close>,
  when that pointer is not \<open>NULL\<close>, holds the computed length: \<open>(8 * n + 4) div 5\<close>
  in \<open>size_t\<close> arithmetic for the encoder, and \<open>\<lfloor>5 * m / 8\<rfloor>\<close> for the decoder, where
  \<open>m\<close> is the number of symbols left when the trailing \<open>=\<close> are dropped (the decoder
  reads its \<open>n\<close> input symbols to find \<open>m\<close>, so they must be there).
\<close>

theorem base32_null_output_is_length_query:
  "tr_base32_encode input n None ol
     = Some (None, map_option (\<lambda>_. (n * 8 + 4) mod 2 ^ 64 div 5) ol)
   \<and> (n \<le> length symbols \<longrightarrow>
        tr_base32_decode symbols n None ol
          = Some (None, map_option (\<lambda>_. length (strip_trailing (take n symbols)) * 5 mod 2 ^ 64 div 8) ol))"
  by (cases ol) (simp_all add: tr_base32_encode_def tr_base32_decode_def strip_padding_spec SIZE_WIDTH_def)

theorem base32_null_output_is_length_query_witness:
  "tr_base32_encode [0xFF, 0x00] 2 None (Some 77) = Some (None, Some 4)
   \<and> tr_base32_encode [0xFF, 0x00] 2 None None = Some (None, None)
   \<and> (2::nat) \<le> length ''74AA====''
   \<and> tr_base32_decode ''74AA===='' 8 None (Some 77) = Some (None, Some 2)
   \<and> tr_base32_decode ''74AA===='' 8 None None = Some (None, None)"
proof -
  have h: "(8::nat) \<le> length ''74AA====''" by simp
  from base32_null_output_is_length_query [of "[0xFF, 0x00]" 2 "Some 77" "''74AA====''"]
  have e1: "tr_base32_encode [0xFF, 0x00] 2 None (Some 77) = Some (None, Some 4)" by simp
  from base32_null_output_is_length_query [of "[0xFF, 0x00]" 2 None "''74AA====''"]
  have e2: "tr_base32_encode [0xFF, 0x00] 2 None None = Some (None, None)" by simp
  from base32_null_output_is_length_query [of "[]" 8 "Some 77" "''74AA====''"] h
  have d1: "tr_base32_decode ''74AA===='' 8 None (Some 77) = Some (None, Some 2)"
    by (simp add: strip_trailing_def)
  from base32_null_output_is_length_query [of "[]" 8 None "''74AA====''"] h
  have d2: "tr_base32_decode ''74AA===='' 8 None None = Some (None, None)"
    by (simp add: strip_trailing_def)
  from e1 e2 d1 d2 show ?thesis by simp
qed

section \<open>Claim about the key alignment\<close>

text \<open>
  Claim C5. For every buffer of at least \<open>buffer_size\<close> bytes and every
  \<open>key_size \<le> buffer_size\<close>, \<open>tr_dh_align_key\<close> moves the first \<open>key_size\<close> bytes to
  the end of the first \<open>buffer_size\<close> bytes and fills the
  \<open>buffer_size - key_size\<close> bytes before them with zero: the key is right-aligned, the
  big-endian number in the buffer is the number the key held, and the bytes after
  \<open>buffer_size\<close> are untouched.
\<close>

theorem tr_dh_align_key_right_aligns:
  assumes "key_size \<le> buffer_size" "buffer_size \<le> length key_buffer"
  shows "\<exists>aligned. tr_dh_align_key key_buffer key_size buffer_size = Some aligned
       \<and> length aligned = length key_buffer
       \<and> drop (buffer_size - key_size) (take buffer_size aligned) = take key_size key_buffer
       \<and> take (buffer_size - key_size) aligned = replicate (buffer_size - key_size) 0
       \<and> drop buffer_size aligned = drop buffer_size key_buffer
       \<and> be_value (take buffer_size aligned) = be_value (take key_size key_buffer)"
proof -
  let ?a = "replicate (buffer_size - key_size) 0 @ take key_size key_buffer @ drop buffer_size key_buffer"
  have t: "take buffer_size ?a = replicate (buffer_size - key_size) 0 @ take key_size key_buffer"
    using assms by simp
  have "length ?a = length key_buffer" using assms by simp
  moreover have "drop (buffer_size - key_size) (take buffer_size ?a) = take key_size key_buffer"
    unfolding t by simp
  moreover have "take (buffer_size - key_size) ?a = replicate (buffer_size - key_size) 0"
    by simp
  moreover have "drop buffer_size ?a = drop buffer_size key_buffer"
    using assms by simp
  moreover have "be_value (take buffer_size ?a) = be_value (take key_size key_buffer)"
    unfolding t by (rule be_value_zeros)
  ultimately show ?thesis
    using tr_dh_align_key_eq [OF assms] by blast
qed

theorem tr_dh_align_key_right_aligns_witness:
  "(2::nat) \<le> 4 \<and> (4::nat) \<le> length [0x12, 0x34, 0xEE, 0xFF, 0x77 :: u8]
   \<and> tr_dh_align_key [0x12, 0x34, 0xEE, 0xFF, 0x77] 2 4 = Some [0, 0, 0x12, 0x34, 0x77]
   \<and> be_value [0, 0, 0x12, 0x34] = be_value [0x12, 0x34]"
proof -
  have h: "(2::nat) \<le> 4" "(4::nat) \<le> length [0x12, 0x34, 0xEE, 0xFF, 0x77 :: u8]" by simp_all
  from tr_dh_align_key_right_aligns [OF h] obtain aligned where
    a: "tr_dh_align_key [0x12, 0x34, 0xEE, 0xFF, 0x77] 2 4 = Some aligned"
    and b: "be_value (take 4 aligned) = be_value (take 2 [0x12, 0x34, 0xEE, 0xFF, 0x77])"
    by blast
  have e: "tr_dh_align_key [0x12, 0x34, 0xEE, 0xFF, 0x77] 2 4 = Some [0, 0, 0x12, 0x34, 0x77]"
    by (simp add: tr_dh_align_key_def memmove_def memset_def replicate_unfold)
  with a have "aligned = [0, 0, 0x12, 0x34, 0x77]" by simp
  with b have "be_value [0, 0, 0x12, 0x34] = be_value [0x12, 0x34]" by simp
  with e h show ?thesis by simp
qed

section \<open>Claim about the bounded random integers\<close>

text \<open>
  Claim C4, and the draw where the code departs from it. For every \<open>upper_bound > 0\<close>:
  when the provider fails, \<open>tr_rand_int\<close> returns the value of \<open>tr_rand_int_weak\<close>,
  which is in \<open>[0, upper_bound)\<close>; when the provider delivers a draw other than
  \<open>INT_MIN\<close>, \<open>tr_rand_int\<close> returns a value in \<open>[0, upper_bound)\<close> from that draw. When
  the draw is \<open>INT_MIN\<close>, the code calls \<open>abs (INT_MIN)\<close>, whose behaviour is undefined:
  the draw is not detected before the call, and the test \<open>noise >= 0\<close> that is meant to
  discard it comes after the undefined behaviour, where nothing holds of the program any
  more.
\<close>

theorem tr_rand_int_undefined_at_int_min:
  assumes "0 < upper_bound"
  shows "tr_rand_int srand rand t upper_bound (Rand_Filled (word_of_int INT_MIN) # answers) w
           = Undefined_Behaviour
       \<and> (\<forall>x. x \<noteq> word_of_int INT_MIN \<longrightarrow>
            (\<exists>r. tr_rand_int srand rand t upper_bound (Rand_Filled x # answers) w = Returned (r, w)
                 \<and> 0 \<le> r \<and> r < upper_bound))
       \<and> (\<exists>r w'. tr_rand_int srand rand t upper_bound (Rand_Failed # answers) w = Returned (r, w')
                 \<and> 0 \<le> r \<and> r < upper_bound)
       \<and> (\<exists>r w'. tr_rand_int_weak srand rand t upper_bound w = Some (r, w') \<and> 0 \<le> r \<and> r < upper_bound)"
proof -
  have 1: "tr_rand_int srand rand t upper_bound (Rand_Filled (word_of_int INT_MIN) # answers) w
           = Undefined_Behaviour"
    using assms sint_eq_INT_MIN [of "word_of_int INT_MIN"]
    by (simp add: tr_rand_int_def c_abs_def)
  have 2: "\<exists>r. tr_rand_int srand rand t upper_bound (Rand_Filled x # answers) w = Returned (r, w)
                 \<and> 0 \<le> r \<and> r < upper_bound" if "x \<noteq> word_of_int INT_MIN" for x
  proof -
    from that have "sint x \<noteq> INT_MIN" by (simp add: sint_eq_INT_MIN)
    moreover have "0 \<le> c_rem \<bar>sint x\<bar> upper_bound" by (rule c_rem_nonneg) simp
    moreover have "c_rem \<bar>sint x\<bar> upper_bound < upper_bound" using c_rem_range [OF assms] by simp
    ultimately show ?thesis using assms by (simp add: tr_rand_int_def c_abs_def Let_def)
  qed
  from tr_rand_int_weak_range [OF assms, of srand rand t w] obtain r w' where
    wk: "tr_rand_int_weak srand rand t upper_bound w = Some (r, w')" "0 \<le> r" "r < upper_bound"
    by blast
  then have 3: "\<exists>r w'. tr_rand_int srand rand t upper_bound (Rand_Failed # answers) w = Returned (r, w')
                 \<and> 0 \<le> r \<and> r < upper_bound"
    using assms by (simp add: tr_rand_int_def)
  from 1 2 3 wk show ?thesis by blast
qed

theorem tr_rand_int_undefined_at_int_min_witness:
  "(0::int) < 3
   \<and> sint (word_of_int INT_MIN :: 32 word) = INT_MIN
   \<and> tr_rand_int id (Pair 7) 42 3 [Rand_Filled (word_of_int INT_MIN)] \<lparr>init = False, libc_state = 0 :: nat\<rparr>
       = Undefined_Behaviour
   \<and> tr_rand_int id (Pair 7) 42 3 [Rand_Filled (- 5)] \<lparr>init = False, libc_state = 0 :: nat\<rparr>
       = Returned (2, \<lparr>init = False, libc_state = 0\<rparr>)
   \<and> tr_rand_int id (Pair 7) 42 3 [Rand_Failed] \<lparr>init = False, libc_state = 0 :: nat\<rparr>
       = Returned (1, \<lparr>init = True, libc_state = 42\<rparr>)"
proof -
  have h: "(0::int) < 3" by simp
  have s: "sint (word_of_int INT_MIN :: 32 word) = INT_MIN" "sint (- 5 :: 32 word) = - 5"
    by (simp_all add: INT_MIN_def)
  from tr_rand_int_undefined_at_int_min [OF h, of id "Pair 7" 42 "[]" "\<lparr>init = False, libc_state = 0 :: nat\<rparr>"]
  have u: "tr_rand_int id (Pair 7) 42 3 [Rand_Filled (word_of_int INT_MIN)] \<lparr>init = False, libc_state = 0 :: nat\<rparr>
       = Undefined_Behaviour"
    by (rule conjunct1)
  have "tr_rand_int id (Pair 7) 42 3 [Rand_Filled (- 5)] \<lparr>init = False, libc_state = 0 :: nat\<rparr>
       = Returned (2, \<lparr>init = False, libc_state = 0\<rparr>)"
    unfolding tr_rand_int_def rand_int_loop.simps s by (simp add: c_abs_def c_rem_def INT_MIN_def)
  moreover have "tr_rand_int id (Pair 7) 42 3 [Rand_Failed] \<lparr>init = False, libc_state = 0 :: nat\<rparr>
       = Returned (1, \<lparr>init = True, libc_state = 42\<rparr>)"
    by (simp add: tr_rand_int_def c_rem_def tr_rand_int_weak_def)
  ultimately show ?thesis using h s(1) u by simp
qed

section \<open>Claims about the salted tokens\<close>

text \<open>
  Claim C9. For every plaintext (a C string of fewer than \<open>2 ^ 31\<close> characters, whose
  length \<open>tr_sha1\<close> takes as an \<open>int\<close>) and every content of \<open>salt\<close>, \<open>tr_ssha1\<close>
  returns the string made of \<open>{\<close>, 40 characters out of \<open>0123456789abcdef\<close>, and the 8
  salt characters, all out of \<open>salter\<close>, followed by the terminating \<open>NUL\<close>: its length is
  49. When the provider delivers the SHA-1 digest of the plaintext followed by the salt,
  the 40 characters are the hexadecimal digits of that digest. (A provider that delivers a
  digest of another size than \<open>SHA_DIGEST_LENGTH\<close> fails the assertion of
  \<open>tr_sha1_final\<close>; the hypothesis excludes it.)
\<close>

theorem tr_ssha1_token_layout:
  assumes "strlen plain_text = Some n" "n < 2 ^ 31"
    and "\<forall>d. sha1 (take n (bytes_of plain_text) @ bytes_of (salt_of salt0)) = Some d
           \<longrightarrow> length d = SHA_DIGEST_LENGTH"
  shows "\<exists>hex. tr_ssha1 sha1 salt0 sha0 buf0 plain_text = Some (CHR ''{'' # hex @ salt_of salt0 @ [NUL])
       \<and> strlen (CHR ''{'' # hex @ salt_of salt0 @ [NUL]) = Some 49
       \<and> length hex = 40 \<and> set hex \<subseteq> set ''0123456789abcdef''
       \<and> length (salt_of salt0) = 8 \<and> set (salt_of salt0) \<subseteq> set salter
       \<and> (\<forall>d. sha1 (take n (bytes_of plain_text) @ bytes_of (salt_of salt0)) = Some d
             \<longrightarrow> hex = hex_string d)"
proof -
  let ?msg = "take n (bytes_of plain_text) @ bytes_of (salt_of salt0)"
  define junk where "junk = map sha0 [0..<SHA_DIGEST_LENGTH]"
  define hex where "hex = hex_string (take SHA_DIGEST_LENGTH (digest_or sha1 ?msg junk))"
  have ld: "length (digest_or sha1 ?msg junk) = SHA_DIGEST_LENGTH"
    using assms(3) by (cases "sha1 ?msg") (simp_all add: digest_or_def junk_def)
  have t: "tr_ssha1 sha1 salt0 sha0 buf0 plain_text = Some (CHR ''{'' # hex @ salt_of salt0 @ [NUL])"
    unfolding hex_def by (rule tr_ssha1_eq) (fact assms(1), fact assms(2), fact assms(3), fact junk_def)
  have lh: "length hex = 40" using ld by (simp add: hex_def length_hex_string SHA_DIGEST_LENGTH_def)
  have "NUL \<notin> set (CHR ''{'' # hex @ salt_of salt0)"
    using hex_string_no_NUL salt_of_no_NUL by (simp add: NUL_def hex_def)
  from strlen_cstring [OF this, of "[]"] have sl: "strlen (CHR ''{'' # hex @ salt_of salt0 @ [NUL]) = Some 49"
    using lh by (simp add: length_salt_of)
  have hc: "set hex \<subseteq> set ''0123456789abcdef''"
    using hex_string_chars unfolding hex_def hex_chars_def .
  have dg: "hex = hex_string d" if "sha1 ?msg = Some d" for d
    using that assms(3) by (simp add: hex_def digest_or_def)
  from t sl lh hc dg length_salt_of salt_of_chars show ?thesis by blast
qed

theorem tr_ssha1_token_layout_witness:
  "strlen (''pw'' @ [NUL]) = Some 2
   \<and> tr_ssha1 (\<lambda>m. Some (replicate 20 0xAB)) of_nat (\<lambda>i. 0) (\<lambda>i. CHR ''?'') (''pw'' @ [NUL])
       = Some (''{abababababababababababababababababababab01234567'' @ [NUL])"
proof -
  have s: "strlen (''pw'' @ [NUL]) = Some 2"
    using strlen_cstring [of "''pw''" "[]"] by (simp add: NUL_def)
  have n: "(2::nat) < 2 ^ 31" by simp
  have u: "[0..<8::nat] = [0, 1, 2, 3, 4, 5, 6, 7]" by code_simp
  have salt: "salt_of of_nat = ''01234567''"
    by (simp add: salt_of_def salter_def u unat_of_nat)
  have hx: "hex_string (replicate 20 0xAB) = ''abababababababababababababababababababab''"
    by (simp add: hex_string_def hex_of_byte_def hex_chars_def replicate_unfold)
  from tr_ssha1_token_layout [OF s n, of "\<lambda>m. Some (replicate 20 0xAB)" of_nat "\<lambda>i. 0" "\<lambda>i. CHR ''?''"]
  obtain hex where
    "tr_ssha1 (\<lambda>m. Some (replicate 20 0xAB)) of_nat (\<lambda>i. 0) (\<lambda>i. CHR ''?'') (''pw'' @ [NUL])
       = Some (CHR ''{'' # hex @ salt_of of_nat @ [NUL])" "hex = hex_string (replicate 20 0xAB)"
    by (auto simp: SHA_DIGEST_LENGTH_def)
  with s salt hx show ?thesis by simp
qed

text \<open>
  Claim C3. Let the provider deliver 20-byte digests \<open>d\<close> of the plaintext followed by
  the salt and \<open>d'\<close> of the plaintext followed by \<open>x\<close> and the salt, for a plaintext of
  fewer than \<open>2 ^ 31 - 1\<close> characters. Then \<open>tr_ssha1_matches\<close> accepts the token of
  \<open>tr_ssha1\<close> for the plaintext, and it rejects that token for the plaintext followed by
  \<open>x\<close> when \<open>d'\<close> differs from \<open>d\<close>: the tokens are compared in full, and
  different digests have different hexadecimal renderings.
\<close>

theorem tr_ssha1_matches_own_token:
  assumes p: "strlen plain_text = Some n" "n + 1 < 2 ^ 31"
    and d: "sha1 (take n (bytes_of plain_text) @ bytes_of (salt_of salt0)) = Some d"
           "length d = SHA_DIGEST_LENGTH"
    and d': "sha1 (take n (bytes_of plain_text) @ bytes_of ''x'' @ bytes_of (salt_of salt0)) = Some d'"
           "length d' = SHA_DIGEST_LENGTH"
    and differ: "d' \<noteq> d"
  shows "\<exists>token. tr_ssha1 sha1 salt0 sha0 buf0 plain_text = Some token
       \<and> tr_ssha1_matches sha1 buf1 heap0 token plain_text = Some True
       \<and> tr_ssha1_matches sha1 buf1 heap0 token (take n plain_text @ ''x'' @ [NUL]) = Some False"
proof -
  let ?salt = "salt_of salt0"
  let ?hex = "hex_string d"
  let ?tok = "CHR ''{'' # ?hex @ ?salt"
  have n31: "n < 2 ^ 31" using p(2) by simp
  have lh: "length ?hex = 40" using d(2) by (simp add: length_hex_string SHA_DIGEST_LENGTH_def)
  have t: "tr_ssha1 sha1 salt0 sha0 buf0 plain_text = Some (?tok @ [NUL])"
    using tr_ssha1_eq [OF p(1) n31 _ refl, of sha1 salt0 sha0 buf0] d
    by (simp add: digest_or_def)
  have "NUL \<notin> set ?tok"
    using hex_string_no_NUL salt_of_no_NUL by (simp add: NUL_def)
  from strlen_cstring [OF this, of "[]"] have sl: "strlen (?tok @ [NUL]) = Some 49"
    using lh by (simp add: length_salt_of)
  have tk: "take 49 (?tok @ [NUL]) = ?tok" using lh by (simp add: length_salt_of)
  have sd: "?salt = drop (2 * SHA_DIGEST_LENGTH + 1) (take 49 (?tok @ [NUL]))"
    unfolding tk using lh by (simp add: SHA_DIGEST_LENGTH_def)
  have m1: "tr_ssha1_matches sha1 buf1 heap0 (?tok @ [NUL]) plain_text = Some True"
    using tr_ssha1_matches_eq [OF sl _ _ p(1) n31 sd _ refl, of sha1 buf1 heap0] d
    unfolding tk by (simp add: digest_or_def SHA_DIGEST_LENGTH_def)
  from strlen_SomeD [OF p(1)] have np: "NUL \<notin> set (take n plain_text @ ''x'')" "n \<le> length plain_text"
    by (auto simp: NUL_def)
  from strlen_cstring [OF np(1), of "[]"] have px: "strlen (take n plain_text @ ''x'' @ [NUL]) = Some (n + 1)"
    using np(2) by simp
  have bx: "take (n + 1) (bytes_of (take n plain_text @ ''x'' @ [NUL])) = take n (bytes_of plain_text) @ bytes_of ''x''"
    using np(2) by (simp add: bytes_of_def take_map)
  have "?hex \<noteq> hex_string d'"
    using differ d(2) d'(2) hex_string_inj [of d d'] by auto
  then have m2: "tr_ssha1_matches sha1 buf1 heap0 (?tok @ [NUL]) (take n plain_text @ ''x'' @ [NUL]) = Some False"
    using tr_ssha1_matches_eq [OF sl _ _ px p(2) sd _ refl, of sha1 buf1 heap0] d'
    unfolding tk bx by (simp add: digest_or_def SHA_DIGEST_LENGTH_def)
  from t m1 m2 show ?thesis by blast
qed

theorem tr_ssha1_matches_own_token_witness:
  "strlen (''pw'' @ [NUL]) = Some 2
   \<and> (\<exists>token.
         tr_ssha1 (\<lambda>m. Some (replicate 19 0 @ [of_nat (length m)])) of_nat (\<lambda>i. 0) (\<lambda>i. CHR ''?'') (''pw'' @ [NUL])
           = Some token
       \<and> tr_ssha1_matches (\<lambda>m. Some (replicate 19 0 @ [of_nat (length m)])) (\<lambda>i. 0) (\<lambda>i. NUL) token (''pw'' @ [NUL])
           = Some True
       \<and> tr_ssha1_matches (\<lambda>m. Some (replicate 19 0 @ [of_nat (length m)])) (\<lambda>i. 0) (\<lambda>i. NUL) token (''pwx'' @ [NUL])
           = Some False)"
proof -
  let ?f = "\<lambda>m :: u8 list. Some (replicate 19 (0 :: u8) @ [of_nat (length m)])"
  have s: "strlen (''pw'' @ [NUL]) = Some 2"
    using strlen_cstring [of "''pw''" "[]"] by (simp add: NUL_def)
  have n: "(2::nat) + 1 < 2 ^ 31" by simp
  have d: "?f (take 2 (bytes_of (''pw'' @ [NUL])) @ bytes_of (salt_of of_nat)) = Some (replicate 19 0 @ [10])"
    by (simp add: bytes_of_def length_salt_of)
  have d': "?f (take 2 (bytes_of (''pw'' @ [NUL])) @ bytes_of ''x'' @ bytes_of (salt_of of_nat)) = Some (replicate 19 0 @ [11])"
    by (simp add: bytes_of_def length_salt_of)
  have l: "length (replicate 19 (0 :: u8) @ [10]) = SHA_DIGEST_LENGTH" "length (replicate 19 (0 :: u8) @ [11]) = SHA_DIGEST_LENGTH"
    by (simp_all add: SHA_DIGEST_LENGTH_def)
  have ne: "replicate 19 (0 :: u8) @ [11] \<noteq> replicate 19 0 @ [10]" by simp
  have px: "take 2 (''pw'' @ [NUL]) @ ''x'' @ [NUL] = ''pwx'' @ [NUL]" by simp
  from tr_ssha1_matches_own_token [OF s n d l(1) d' l(2) ne, of "\<lambda>i. 0" "\<lambda>i. CHR ''?''" "\<lambda>i. 0" "\<lambda>i. NUL"]
  have "\<exists>token.
         tr_ssha1 ?f of_nat (\<lambda>i. 0) (\<lambda>i. CHR ''?'') (''pw'' @ [NUL]) = Some token
       \<and> tr_ssha1_matches ?f (\<lambda>i. 0) (\<lambda>i. NUL) token (''pw'' @ [NUL]) = Some True
       \<and> tr_ssha1_matches ?f (\<lambda>i. 0) (\<lambda>i. NUL) token (''pwx'' @ [NUL]) = Some False"
    unfolding px .
  with s show ?thesis by blast
qed

text \<open>
  Claim C2 holds for tokens of fewer than 39 characters only. The test of the source is
  \<open>sourcelen < 2 * SHA_DIGEST_LENGTH - 1\<close>, while the salt starts at
  \<open>2 * SHA_DIGEST_LENGTH + 1\<close>. A token of 39 or 40 characters passes the test; then
  \<open>saltlen = sourcelen - 2 * SHA_DIGEST_LENGTH - 1\<close> wraps around to \<open>2 ^ 64 - 2\<close> or
  \<open>2 ^ 64 - 1\<close>, and \<open>memcpy\<close> is told to read that many bytes from \<open>ssha1 + 41\<close>,
  past the end of the token: the call does not return false, its behaviour is undefined.
\<close>

theorem tr_ssha1_matches_short_token:
  assumes "strlen ssha1 = Some len" "length ssha1 < 2 ^ 64 - 2"
  shows "(len < 39 \<longrightarrow> tr_ssha1_matches sha1 buf0 heap0 ssha1 plain_text = Some False)
       \<and> (len = 39 \<or> len = 40 \<longrightarrow> tr_ssha1_matches sha1 buf0 heap0 ssha1 plain_text = None)"
  using tr_ssha1_matches_short [OF assms(1)] tr_ssha1_matches_wraps [OF assms(1) _ assms(2)]
  by blast

theorem tr_ssha1_matches_short_token_witness:
  "strlen (replicate 39 CHR ''a'' @ [NUL]) = Some 39
   \<and> tr_ssha1_matches (\<lambda>m. None) (\<lambda>i. 0) (\<lambda>i. NUL) (replicate 39 CHR ''a'' @ [NUL]) [NUL] = None
   \<and> strlen (replicate 40 CHR ''a'' @ [NUL]) = Some 40
   \<and> tr_ssha1_matches (\<lambda>m. None) (\<lambda>i. 0) (\<lambda>i. NUL) (replicate 40 CHR ''a'' @ [NUL]) [NUL] = None
   \<and> strlen (replicate 38 CHR ''a'' @ [NUL]) = Some 38
   \<and> tr_ssha1_matches (\<lambda>m. None) (\<lambda>i. 0) (\<lambda>i. NUL) (replicate 38 CHR ''a'' @ [NUL]) [NUL] = Some False"
proof -
  have s: "strlen (replicate k CHR ''a'' @ [NUL]) = Some k" for k
    using strlen_cstring [of "replicate k CHR ''a''" "[]"] by (simp add: NUL_def)
  have l: "length (replicate k CHR ''a'' @ [NUL]) < 2 ^ 64 - 2" if "k < 50" for k
    using that by simp
  from tr_ssha1_matches_short_token [OF s l, of 39 "\<lambda>m. None" "\<lambda>i. 0" "\<lambda>i. NUL" "[NUL]"]
  have 1: "tr_ssha1_matches (\<lambda>m. None) (\<lambda>i. 0) (\<lambda>i. NUL) (replicate 39 CHR ''a'' @ [NUL]) [NUL] = None"
    by simp
  from tr_ssha1_matches_short_token [OF s l, of 40 "\<lambda>m. None" "\<lambda>i. 0" "\<lambda>i. NUL" "[NUL]"]
  have 2: "tr_ssha1_matches (\<lambda>m. None) (\<lambda>i. 0) (\<lambda>i. NUL) (replicate 40 CHR ''a'' @ [NUL]) [NUL] = None"
    by simp
  from tr_ssha1_matches_short_token [OF s l, of 38 "\<lambda>m. None" "\<lambda>i. 0" "\<lambda>i. NUL" "[NUL]"]
  have 3: "tr_ssha1_matches (\<lambda>m. None) (\<lambda>i. 0) (\<lambda>i. NUL) (replicate 38 CHR ''a'' @ [NUL]) [NUL] = Some False"
    by simp
  from s 1 2 3 show ?thesis by simp
qed

end
